theory Spec2Isabelle
  imports Main "HOL-Library.Sublist"
begin

section \<open>Strings and the string primitives the reader calls\<close>

text \<open>
  A text is a list of characters. The reader only ever distinguishes the two
  line-break characters and the white space that \<open>trim\<close> removes, so characters
  are taken as code units below 256.
\<close>

definition CR :: char where
  "CR = CHR 0x0D"

definition LF :: char where
  "LF = CHR 0x0A"

text \<open>\<open>type LineSeparator = '\r\n' | '\r' | '\n'\<close>\<close>

datatype LineSeparator = SepCRLF | SepCR | SepLF

fun sepText :: "LineSeparator \<Rightarrow> string" where
  "sepText SepCRLF = [CR, LF]"
| "sepText SepCR = [CR]"
| "sepText SepLF = [LF]"

text \<open>
  \<open>s.lastIndexOf(t)\<close>: the greatest index at which \<open>t\<close> occurs in \<open>s\<close>;
  \<open>None\<close> stands for the result \<open>-1\<close>.
\<close>

definition lastIndexOf :: "string \<Rightarrow> string \<Rightarrow> nat option" where
  "lastIndexOf s t =
     (if length t \<le> length s
      then List.find (\<lambda>i. take (length t) (drop i s) = t) (rev [0 ..< Suc (length s - length t)])
      else None)"

text \<open>
  \<open>s.split(sep)\<close> for a separator string: the pieces between the occurrences of
  \<open>sep\<close>, found from left to right without overlap. An empty text gives one empty
  piece. (The reader only splits on one of the three non-empty separators.)
\<close>

function split :: "string \<Rightarrow> string \<Rightarrow> string list" where
  "split sep [] = [[]]"
| "split sep (c # cs) =
     (if sep \<noteq> [] \<and> prefix sep (c # cs)
      then [] # split sep (drop (length sep) (c # cs))
      else (case split sep cs of
              [] \<Rightarrow> [[c]]
            | piece # pieces \<Rightarrow> (c # piece) # pieces))"
  by pat_completeness auto
termination
  by (relation "measure (\<lambda>(sep, s). length s)") (auto simp: Suc_le_eq)

text \<open>\<open>pieces.join(sep)\<close>\<close>

fun join :: "string \<Rightarrow> string list \<Rightarrow> string" where
  "join sep [] = []"
| "join sep [x] = x"
| "join sep (x # y # ys) = x @ sep @ join sep (y # ys)"

text \<open>
  \<open>s.trim()\<close> removes white space and line terminators from both ends; below 256
  these are tab, line feed, vertical tab, form feed, carriage return, space and
  the no-break space.
\<close>

definition isWhiteSpace :: "char \<Rightarrow> bool" where
  "isWhiteSpace c \<longleftrightarrow>
     c \<in> set [CHR 0x09, CHR 0x0A, CHR 0x0B, CHR 0x0C, CHR 0x0D, CHR 0x20, CHR 0xA0]"

definition trim :: "string \<Rightarrow> string" where
  "trim s = rev (dropWhile isWhiteSpace (rev (dropWhile isWhiteSpace s)))"

section \<open>The chunk source\<close>

text \<open>
  Modelled from the spec: the class \<open>ChunkReader\<close> of the package \<open>chunkreader2\<close>,
  of which the reader uses \<open>open\<close>, \<open>read\<close>, \<open>reset\<close>, \<open>close\<close>, \<open>isOpened\<close>,
  \<open>isClosed\<close>, \<open>bytesLength\<close> and \<open>bytesRead\<close>. The source opens a file, yields
  successive chunks of at most \<open>bufferSize\<close> characters, tracks the total size and
  the amount consumed, signals the end of the stream by becoming closed (with the
  pull that delivers the last chunk, or a pull that delivers nothing), and is closed
  as soon as it is opened on a file of length zero. Its \<open>reset\<close> seeks back to the
  start and clears the consumed counter; opening an open source changes nothing.
\<close>

record ChunkReader =
  fileContent :: string
  bufferSize :: nat
  bytesLength :: nat
  bytesRead :: nat
  isOpened :: bool
  isClosed :: bool

definition ChunkReader_new :: "string \<Rightarrow> nat \<Rightarrow> ChunkReader" where
  "ChunkReader_new content bsize =
     \<lparr>fileContent = content, bufferSize = bsize, bytesLength = 0, bytesRead = 0,
      isOpened = False, isClosed = False\<rparr>"

definition open_source :: "ChunkReader \<Rightarrow> ChunkReader" where
  "open_source r =
     (if isOpened r then r
      else r\<lparr>bytesLength := length (fileContent r), isOpened := True,
             isClosed := (length (fileContent r) = 0)\<rparr>)"

definition close_source :: "ChunkReader \<Rightarrow> ChunkReader" where
  "close_source r = r\<lparr>isClosed := True\<rparr>"

definition reset :: "ChunkReader \<Rightarrow> ChunkReader" where
  "reset r = r\<lparr>bytesRead := 0, isClosed := (isOpened r \<and> bytesLength r = 0)\<rparr>"

definition read :: "ChunkReader \<Rightarrow> string \<times> ChunkReader" where
  "read r =
     (let chunk = take (bufferSize r) (drop (bytesRead r) (fileContent r));
          n = bytesRead r + length chunk
      in (chunk, r\<lparr>bytesRead := n, isClosed := (chunk = [] \<or> bytesLength r \<le> n)\<rparr>))"

text \<open>
  What is left to pull: it decreases with every pull that leaves the source open,
  which is why the loops over the chunks end.
\<close>

definition pending :: "ChunkReader \<Rightarrow> nat" where
  "pending r = (if isClosed r then 0 else Suc (length (fileContent r) - bytesRead r))"

section \<open>The line reader\<close>

text \<open>
  An entry of \<open>skipNumbers\<close>: a single line number or a pair \<open>[start, end]\<close>.
\<close>

datatype SkipNumber = Single int | Range int int

text \<open>
  \<open>LineReaderOptions\<close>. The file path and the buffer size go to the chunk source;
  an absent \<open>skipBlank\<close> counts as false.
\<close>

record LineReaderOptions =
  lineSeparator :: "LineSeparator option"
  skipBlank :: bool
  skipNumbers :: "SkipNumber list option"

text \<open>
  Modelled from the spec: the bit set \<open>TypedFastBitSet\<close> that holds the line numbers
  to skip, as the set of its members. \<open>addRange\<close> takes the start inclusive and the
  end exclusive.
\<close>

type_synonym BitSet = "int set"

definition bitset_add :: "int \<Rightarrow> BitSet \<Rightarrow> BitSet" where
  "bitset_add n b = insert n b"

definition bitset_addRange :: "int \<Rightarrow> int \<Rightarrow> BitSet \<Rightarrow> BitSet" where
  "bitset_addRange start end_excl b = {start ..< end_excl} \<union> b"

definition bitset_has :: "BitSet \<Rightarrow> int \<Rightarrow> bool" where
  "bitset_has b n \<longleftrightarrow> n \<in> b"

record LineReader =
  options :: LineReaderOptions
  reader :: ChunkReader
  buffer :: "(string \<times> nat) list"
  cutted :: "string option"
  separator :: "LineSeparator option"
  count :: nat
  skips :: BitSet

text \<open>The loop of the constructor over \<open>options.skipNumbers\<close>.\<close>

fun addSkipNumbers :: "SkipNumber list \<Rightarrow> BitSet \<Rightarrow> BitSet" where
  "addSkipNumbers [] b = b"
| "addSkipNumbers (Range s e # rest) b = addSkipNumbers rest (bitset_addRange s (e + 1) b)"
| "addSkipNumbers (Single n # rest) b = addSkipNumbers rest (bitset_add n b)"

definition LineReader_new :: "string \<Rightarrow> nat \<Rightarrow> LineReaderOptions \<Rightarrow> LineReader" where
  "LineReader_new content bsize opts =
     \<lparr>options = opts,
      reader = ChunkReader_new content bsize,
      buffer = [],
      cutted = None,
      separator = lineSeparator opts,
      count = 0,
      skips = (case skipNumbers opts of None \<Rightarrow> {} | Some ns \<Rightarrow> addSkipNumbers ns {})\<rparr>"

text \<open>
  The constructor once more, with the two operations of the skip set that it calls
  taken as parameters: each returns the new set or the error that it raises. The
  constructor catches nothing, so the first error ends it and no reader is made.
  \<open>LineReader_new\<close> is this constructor over the set above, whose operations
  never raise.
\<close>

fun addSkipNumbersWith ::
    "(int \<Rightarrow> BitSet \<Rightarrow> 'e + BitSet) \<Rightarrow> (int \<Rightarrow> int \<Rightarrow> BitSet \<Rightarrow> 'e + BitSet) \<Rightarrow>
       SkipNumber list \<Rightarrow> BitSet \<Rightarrow> 'e + BitSet" where
  "addSkipNumbersWith add addRange [] b = Inr b"
| "addSkipNumbersWith add addRange (Range s e # rest) b =
     (case addRange s (e + 1) b of
        Inl err \<Rightarrow> Inl err
      | Inr b' \<Rightarrow> addSkipNumbersWith add addRange rest b')"
| "addSkipNumbersWith add addRange (Single n # rest) b =
     (case add n b of
        Inl err \<Rightarrow> Inl err
      | Inr b' \<Rightarrow> addSkipNumbersWith add addRange rest b')"

definition LineReader_newWith ::
    "(int \<Rightarrow> BitSet \<Rightarrow> 'e + BitSet) \<Rightarrow> (int \<Rightarrow> int \<Rightarrow> BitSet \<Rightarrow> 'e + BitSet) \<Rightarrow>
       string \<Rightarrow> nat \<Rightarrow> LineReaderOptions \<Rightarrow> 'e + LineReader" where
  "LineReader_newWith add addRange content bsize opts =
     (case (case skipNumbers opts of
              None \<Rightarrow> Inr {}
            | Some ns \<Rightarrow> addSkipNumbersWith add addRange ns {}) of
        Inl err \<Rightarrow> Inl err
      | Inr b \<Rightarrow>
          Inr \<lparr>options = opts,
               reader = ChunkReader_new content bsize,
               buffer = [],
               cutted = None,
               separator = lineSeparator opts,
               count = 0,
               skips = b\<rparr>)"

text \<open>The getter \<open>isClosed\<close> of the line reader.\<close>

definition LineReader_isClosed :: "LineReader \<Rightarrow> bool" where
  "LineReader_isClosed lr \<longleftrightarrow> isClosed (reader lr) \<and> cutted lr = None \<and> buffer lr = []"

text \<open>
  The loop of \<open>setSeparator\<close>: pull chunks until one decides the separator or the
  source is closed.
\<close>

function setSeparator_loop :: "ChunkReader \<Rightarrow> LineSeparator option \<times> ChunkReader" where
  "setSeparator_loop r =
     (if isClosed r then (None, r)
      else (case read r of (chunk, r') \<Rightarrow>
        if lastIndexOf chunk [CR, LF] \<noteq> None then (Some SepCRLF, r')
        else (let middleChunk = butlast (tl chunk) in
          if lastIndexOf middleChunk [LF] \<noteq> None then (Some SepLF, r')
          else if lastIndexOf middleChunk [CR] \<noteq> None then (Some SepCR, r')
          else setSeparator_loop r')))"
  by pat_completeness auto
termination
  apply (relation "measure pending")
   apply simp
  apply (auto simp: pending_def read_def Let_def)
  done

declare setSeparator_loop.simps [simp del]

definition setSeparator :: "LineReader \<Rightarrow> LineSeparator \<times> LineReader" where
  "setSeparator lr =
     (case setSeparator_loop (reader lr) of (found, r') \<Rightarrow>
        (let sep = (case found of None \<Rightarrow> SepCRLF | Some s \<Rightarrow> s)
         in (sep, lr\<lparr>reader := reset r', separator := Some sep\<rparr>)))"

text \<open>
  The loop of \<open>nextChunk\<close>; it returns \<open>chunks\<close>, \<open>cutAt\<close>, \<open>cutted\<close> and the
  source.
\<close>

function nextChunk_loop ::
    "LineSeparator \<Rightarrow> ChunkReader \<Rightarrow> string \<Rightarrow> string \<times> nat \<times> bool \<times> ChunkReader" where
  "nextChunk_loop sep r chunks =
     (if isClosed r then (chunks, 0, False, r)
      else (case read r of (chunk, r') \<Rightarrow>
        (case lastIndexOf chunk (sepText sep) of
           Some foundAt \<Rightarrow>
             (chunks @ chunk, length (chunks @ chunk) - length chunk + foundAt, True, r')
         | None \<Rightarrow> nextChunk_loop sep r' (chunks @ chunk))))"
  by pat_completeness auto
termination
  apply (relation "measure (\<lambda>(sep, r, chunks). pending r)")
   apply simp
  apply (auto simp: pending_def read_def Let_def)
  done

declare nextChunk_loop.simps [simp del]

text \<open>
  \<open>nextChunk\<close>: the separator is detected first when there is none; the result is
  the blob \<open>data\<close> and the reader with its new pending fragment.
\<close>

definition nextChunk :: "LineReader \<Rightarrow> string \<times> LineReader" where
  "nextChunk lr0 =
     (case (case separator lr0 of None \<Rightarrow> setSeparator lr0 | Some s \<Rightarrow> (s, lr0)) of
        (sep, lr) \<Rightarrow>
     (case nextChunk_loop sep (reader lr) [] of
        (chunks, cutAt, wasCut, r') \<Rightarrow>
     (let data = (case cutted lr of None \<Rightarrow> [] | Some c \<Rightarrow> c)
                 @ (if wasCut then take cutAt chunks else chunks)
      in if isClosed r'
         then (if wasCut then data @ drop cutAt chunks else data,
               lr\<lparr>reader := r', cutted := None\<rparr>)
         else (data,
               lr\<lparr>reader := r',
                  cutted := (if wasCut then Some (drop (cutAt + length (sepText sep)) chunks)
                             else None)\<rparr>))))"

text \<open>The loop over \<open>texts\<close> in \<open>readLinesWithNumbers\<close>.\<close>

fun pushLines :: "string list \<Rightarrow> LineReader \<Rightarrow> LineReader" where
  "pushLines [] lr = lr"
| "pushLines (text # texts) lr =
     (let number = count lr + 1;
          lr' = lr\<lparr>count := number\<rparr>
      in if skipNumbers (options lr') \<noteq> None \<and> bitset_has (skips lr') (int number)
         then pushLines texts lr'
         else if skipBlank (options lr') \<and> length (trim text) = 0
         then pushLines texts lr'
         else pushLines texts (lr'\<lparr>buffer := buffer lr' @ [(text, number)]\<rparr>))"

text \<open>
  The optional \<open>limit\<close>: \<open>None\<close> is an absent argument. \<open>!limit\<close> holds for an
  absent limit and for 0.
\<close>

definition noLimit :: "int option \<Rightarrow> bool" where
  "noLimit limit \<longleftrightarrow> (case limit of None \<Rightarrow> True | Some n \<Rightarrow> n = 0)"

text \<open>
  Modelled from the spec: \<open>remove(0, count)\<close> of the queue \<open>Denque\<close>, which takes
  up to \<open>count\<close> entries from the front, and nothing when \<open>count\<close> is below 1; the
  reader turns its \<open>undefined\<close> into the empty list.
\<close>

definition removeFront :: "int \<Rightarrow> 'a list \<Rightarrow> 'a list \<times> 'a list" where
  "removeFront n q = (if n < 1 then ([], q) else (take (nat n) q, drop (nat n) q))"

definition readLinesWithNumbers ::
    "int option \<Rightarrow> LineReader \<Rightarrow> (string \<times> nat) list \<times> LineReader" where
  "readLinesWithNumbers limit lr0 =
     (let lr1 = (if \<not> isOpened (reader lr0) then lr0\<lparr>reader := open_source (reader lr0)\<rparr>
                 else lr0)
      in if bytesLength (reader lr1) = 0 then ([], lr1)
         else
           (let lr3 =
                  (if noLimit limit \<or> (case limit of None \<Rightarrow> False
                                          | Some n \<Rightarrow> n > int (length (buffer lr1)))
                   then (case nextChunk lr1 of (output, lr2) \<Rightarrow>
                           if output \<noteq> [] \<or> \<not> LineReader_isClosed lr2
                           then pushLines
                                  (case separator lr2 of None \<Rightarrow> [output]
                                   | Some sep \<Rightarrow> split (sepText sep) output) lr2
                           else lr2)
                   else lr1)
            in (case removeFront (if noLimit limit then int (length (buffer lr3))
                                  else (case limit of None \<Rightarrow> 0 | Some n \<Rightarrow> n))
                       (buffer lr3) of
                  (lines, rest) \<Rightarrow> (lines, lr3\<lparr>buffer := rest\<rparr>))))"

definition readLines :: "int option \<Rightarrow> LineReader \<Rightarrow> string list \<times> LineReader" where
  "readLines limit lr =
     (case readLinesWithNumbers limit lr of (lines, lr') \<Rightarrow> (map fst lines, lr'))"

text \<open>
  \<open>readLineWithNumber\<close> calls \<open>readLinesWithNumbers(1)\<close> until it has a line or the
  reader is closed. \<open>None\<close> as the value of the function means that the loop does
  not end; the returned line is \<open>None\<close> for \<open>undefined\<close>.
\<close>

partial_function (option) readLineWithNumber ::
    "LineReader \<Rightarrow> ((string \<times> nat) option \<times> LineReader) option" where
  "readLineWithNumber lr =
     (if LineReader_isClosed lr then Some (None, lr)
      else (case readLinesWithNumbers (Some 1) lr of
              ([], lr') \<Rightarrow> readLineWithNumber lr'
            | (line # _, lr') \<Rightarrow> Some (Some line, lr')))"

declare readLineWithNumber.simps [code]

definition readLine :: "LineReader \<Rightarrow> (string option \<times> LineReader) option" where
  "readLine lr =
     (case readLineWithNumber lr of
        None \<Rightarrow> None
      | Some (line, lr') \<Rightarrow> Some (map_option fst line, lr'))"

definition resetReader :: "LineReader \<Rightarrow> LineReader" where
  "resetReader lr =
     lr\<lparr>reader := reset (reader lr), buffer := [], cutted := None, separator := None,
        count := 0\<rparr>"

definition openReader :: "LineReader \<Rightarrow> LineReader" where
  "openReader lr = lr\<lparr>reader := open_source (reader lr)\<rparr>"

definition closeReader :: "LineReader \<Rightarrow> LineReader" where
  "closeReader lr = lr\<lparr>reader := close_source (reader lr)\<rparr>"

text \<open>
  A full read, as the callers of the reader do it:
  \<open>while (!reader.isClosed) receiveds.push(...(await reader.readLinesWithNumbers(limit)))\<close>.
  \<open>None\<close> means that the loop does not end.
\<close>

partial_function (option) readAll ::
    "int option \<Rightarrow> (string \<times> nat) list \<Rightarrow> LineReader \<Rightarrow>
       ((string \<times> nat) list \<times> LineReader) option" where
  "readAll limit receiveds lr =
     (if LineReader_isClosed lr then Some (receiveds, lr)
      else (case readLinesWithNumbers limit lr of
              (received, lr') \<Rightarrow> readAll limit (receiveds @ received) lr'))"

declare readAll.simps [code]

section \<open>Notions used to state the properties\<close>

text \<open>
  The chunks that the source still yields: what successive pulls return until the
  source is closed.
\<close>

function remainingChunks :: "ChunkReader \<Rightarrow> string list" where
  "remainingChunks r =
     (if isClosed r then []
      else (case read r of (chunk, r') \<Rightarrow> chunk # remainingChunks r'))"
  by pat_completeness auto
termination
  apply (relation "measure pending")
   apply simp
  apply (auto simp: pending_def read_def Let_def)
  done

declare remainingChunks.simps [simp del]

text \<open>
  A source as \<open>open\<close> leaves it and as pulls and \<open>reset\<close> keep it: opened,
  with the length of its file, a positive buffer size, and closed exactly when the
  whole file has been pulled.
\<close>

definition wellFormed :: "ChunkReader \<Rightarrow> bool" where
  "wellFormed r \<longleftrightarrow>
     isOpened r \<and> bytesLength r = length (fileContent r) \<and> 0 < bufferSize r
     \<and> (isClosed r \<longleftrightarrow> length (fileContent r) \<le> bytesRead r)"

text \<open>The text of the pending fragment, \<open>this.cutted || ''\<close>.\<close>

definition fragment :: "LineReader \<Rightarrow> string" where
  "fragment lr = (case cutted lr of None \<Rightarrow> [] | Some c \<Rightarrow> c)"

text \<open>The texts paired with the numbers that follow the counter value \<open>c\<close>.\<close>

definition numbered :: "nat \<Rightarrow> string list \<Rightarrow> (string \<times> nat) list" where
  "numbered c texts = zip texts [Suc c ..< Suc c + length texts]"

text \<open>A chunk in which \<open>lastIndexOf\<close> finds no separator.\<close>

definition noSeparatorIn :: "LineSeparator \<Rightarrow> string \<Rightarrow> bool" where
  "noSeparatorIn sep chunk \<longleftrightarrow> lastIndexOf chunk (sepText sep) = None"

text \<open>
  Membership in the skip set as the specification words it: a line number is
  skipped when it is one of the listed single numbers or lies in one of the
  inclusive ranges.
\<close>

definition inSkipList :: "SkipNumber list \<Rightarrow> int \<Rightarrow> bool" where
  "inSkipList ns n =
     list_ex (\<lambda>entry. case entry of Single k \<Rightarrow> n = k | Range s e \<Rightarrow> s \<le> n \<and> n \<le> e) ns"

text \<open>
  The lines that survive the filters: every raw line takes the next number after
  \<open>c\<close>; it is dropped when that number is in the skip set, else when blank
  lines are skipped and its trimmed text is empty.
\<close>

definition keptLines :: "LineReaderOptions \<Rightarrow> nat \<Rightarrow> string list \<Rightarrow> (string \<times> nat) list" where
  "keptLines opts c texts =
     filter (\<lambda>(t, n).
               \<not> (case skipNumbers opts of None \<Rightarrow> False | Some ns \<Rightarrow> inSkipList ns (int n))
               \<and> \<not> (skipBlank opts \<and> trim t = []))
            (zip texts [Suc c ..< Suc c + length texts])"

text \<open>
  Separator detection as the specification words it. A chunk decides for
  \<open>\r\n\<close> when it contains that pair anywhere, else for \<open>\n\<close> and then for
  \<open>\r\<close> when its interior (the chunk without its first and last character)
  contains that character. The first chunk that decides gives the separator, and
  \<open>\r\n\<close> is the default when none does.
\<close>

definition chunkVerdict :: "string \<Rightarrow> LineSeparator option" where
  "chunkVerdict chunk =
     (if sublist [CR, LF] chunk then Some SepCRLF
      else if LF \<in> set (butlast (tl chunk)) then Some SepLF
      else if CR \<in> set (butlast (tl chunk)) then Some SepCR
      else None)"

fun detectSeparator :: "string list \<Rightarrow> LineSeparator" where
  "detectSeparator [] = SepCRLF"
| "detectSeparator (chunk # chunks) =
     (case chunkVerdict chunk of Some sep \<Rightarrow> sep | None \<Rightarrow> detectSeparator chunks)"

text \<open>
  The accumulation loop as the specification words it: after each pull the whole
  accumulated buffer is searched for the last occurrence of the separator. It
  differs from \<open>nextChunk_loop\<close> only in the text that is searched.
\<close>

function nextChunk_loop_cumulative ::
    "LineSeparator \<Rightarrow> ChunkReader \<Rightarrow> string \<Rightarrow> string \<times> nat \<times> bool \<times> ChunkReader" where
  "nextChunk_loop_cumulative sep r chunks =
     (if isClosed r then (chunks, 0, False, r)
      else (case read r of (chunk, r') \<Rightarrow>
        (case lastIndexOf (chunks @ chunk) (sepText sep) of
           Some foundAt \<Rightarrow> (chunks @ chunk, foundAt, True, r')
         | None \<Rightarrow> nextChunk_loop_cumulative sep r' (chunks @ chunk))))"
  by pat_completeness auto
termination
  apply (relation "measure (\<lambda>(sep, r, chunks). pending r)")
   apply simp
  apply (auto simp: pending_def read_def Let_def)
  done

subsection \<open>Readers used as concrete inputs\<close>

text \<open>
  The file \<open>a\r\nb\r\nc\<close> read in chunks of two characters with the declared
  separator \<open>\r\n\<close>: every separator is torn across two chunks but the second,
  which fills the third chunk.
\<close>

definition crlfReader :: LineReader where
  "crlfReader = openReader (LineReader_new (''a'' @ [CR, LF] @ ''b'' @ [CR, LF] @ ''c'') 2
                   \<lparr>lineSeparator = Some SepCRLF, skipBlank = False, skipNumbers = None\<rparr>)"

text \<open>The file \<open>a\nb\<close> in one chunk, with the declared separator \<open>\n\<close>.\<close>

definition lfReader :: LineReader where
  "lfReader = openReader (LineReader_new (''a'' @ [LF] @ ''b'') 8
                   \<lparr>lineSeparator = Some SepLF, skipBlank = False, skipNumbers = None\<rparr>)"

text \<open>
  The file \<open>ab\ncd\r\nef\<close> in chunks of four characters, with no declared
  separator.
\<close>

definition autoReader :: LineReader where
  "autoReader = openReader (LineReader_new (''ab'' @ [LF] @ ''cd'' @ [CR, LF] @ ''ef'') 4
                   \<lparr>lineSeparator = None, skipBlank = False, skipNumbers = None\<rparr>)"

text \<open>The file of the examples in the documentation of the package.\<close>

definition readmeFile :: string where
  "readmeFile = ''1111'' @ [LF] @ ''2222'' @ [LF] @ ''3333'' @ [LF] @ ''4444'' @ [LF]
                @ ''5555'' @ [LF] @ [LF] @ ''7777''"

section \<open>Facts about the string primitives\<close>

lemma sepText_not_Nil: "sepText sep \<noteq> []"
  by (cases sep) simp_all

lemma split_not_Nil: "split sep s \<noteq> []"
  by (induction sep s rule: split.induct) (auto split: list.splits)

lemma join_Cons_nonempty: "ys \<noteq> [] \<Longrightarrow> join sep (x # ys) = x @ sep @ join sep ys"
  by (cases ys) simp_all

lemma join_Cons_head: "join sep ((c # p) # ps) = c # join sep (p # ps)"
  by (cases ps) simp_all

lemma join_split: "join sep (split sep s) = s"
proof (induction sep s rule: split.induct)
  case (1 sep)
  then show ?case by simp
next
  case (2 sep c cs)
  show ?case
  proof (cases "sep \<noteq> [] \<and> prefix sep (c # cs)")
    case True
    then have "c # cs = sep @ drop (length sep) (c # cs)"
      by (metis append_take_drop_id prefix_def append_eq_conv_conj)
    with True 2(1) show ?thesis
      by (simp add: join_Cons_nonempty split_not_Nil del: drop_Suc_Cons) 
  next
    case False
    with 2(2) show ?thesis
      by (cases "split sep cs") (auto simp: split_not_Nil join_Cons_head)
  qed
qed

lemma prefix_sep_append:
  "prefix (sepText sep) ((c # a) @ sepText sep @ b) \<longleftrightarrow> prefix (sepText sep) (c # a)"
  by (cases sep; cases a) (auto simp: CR_def LF_def)

lemma split_append_sep:
  "split (sepText sep) (a @ sepText sep @ b) = split (sepText sep) a @ split (sepText sep) b"
proof (induction "sepText sep" a rule: split.induct)
  case 1
  then show ?case by (cases sep) auto
next
  case (2 c cs)
  show ?case
  proof (cases "prefix (sepText sep) (c # cs)")
    case True
    then have le: "length (sepText sep) \<le> length (c # cs)"
      by (rule prefix_length_le)
    have ne: "sepText sep \<noteq> []" by (cases sep) auto
    from True have p: "prefix (sepText sep) ((c # cs) @ sepText sep @ b)"
      by (simp only: prefix_sep_append)
    have d: "drop (length (sepText sep)) ((c # cs) @ sepText sep @ b)
           = drop (length (sepText sep)) (c # cs) @ sepText sep @ b"
      using le by (simp only: drop_append) simp
    have "split (sepText sep) ((c # cs) @ sepText sep @ b)
        = [] # split (sepText sep) (drop (length (sepText sep)) ((c # cs) @ sepText sep @ b))"
      using p ne by (simp del: drop_Suc_Cons)
    also have "\<dots> = [] # (split (sepText sep) (drop (length (sepText sep)) (c # cs))
                           @ split (sepText sep) b)"
      using 2(1)[OF conjI[OF ne True]] d by simp
    also have "\<dots> = split (sepText sep) (c # cs) @ split (sepText sep) b"
      using True ne by (simp del: drop_Suc_Cons)
    finally show ?thesis .
  next
    case False
    then have np: "\<not> prefix (sepText sep) ((c # cs) @ sepText sep @ b)"
      by (simp only: prefix_sep_append not_False_eq_True)
    have ih: "split (sepText sep) (cs @ sepText sep @ b)
            = split (sepText sep) cs @ split (sepText sep) b"
      using 2(2) False by simp
    obtain p ps where s: "split (sepText sep) cs = p # ps"
      using split_not_Nil by (cases "split (sepText sep) cs") auto
    show ?thesis
      using False np ih s by simp
  qed
qed

lemma lastIndexOf_Some:
  assumes "lastIndexOf s t = Some i"
  shows "i + length t \<le> length s" and "take (length t) (drop i s) = t"
    and "\<And>j. i < j \<Longrightarrow> j + length t \<le> length s \<Longrightarrow> take (length t) (drop j s) \<noteq> t"
proof -
  let ?n = "Suc (length s - length t)"
  let ?P = "\<lambda>i. take (length t) (drop i s) = t"
  from assms have le: "length t \<le> length s" and f: "List.find ?P (rev [0 ..< ?n]) = Some i"
    by (auto simp: lastIndexOf_def split: if_splits)
  from f obtain k where k: "k < ?n" "?P (rev [0 ..< ?n] ! k)" "i = rev [0 ..< ?n] ! k"
    "\<forall>j<k. \<not> ?P (rev [0 ..< ?n] ! j)"
    unfolding find_Some_iff by auto
  have ik: "i = ?n - Suc k" using k(1,3) by (simp add: rev_nth del: upt_Suc)
  show "i + length t \<le> length s" using ik le k(1) by simp
  show "take (length t) (drop i s) = t" using k(2,3) by simp
  fix j assume j: "i < j" "j + length t \<le> length s"
  let ?m = "?n - Suc j"
  have m: "?m < k" using ik j le k(1) by arith
  have "rev [0 ..< ?n] ! ?m = j" using j le by (simp add: rev_nth del: upt_Suc)
  with k(4) m show "take (length t) (drop j s) \<noteq> t" by metis
qed

lemma lastIndexOf_None_iff: "lastIndexOf s t = None \<longleftrightarrow> \<not> sublist t s"
proof
  assume n: "lastIndexOf s t = None"
  show "\<not> sublist t s"
  proof
    assume "sublist t s"
    then obtain ps ss where s: "s = ps @ t @ ss" by (auto simp: sublist_def)
    then have le: "length t \<le> length s" by simp
    have "length ps \<in> set (rev [0 ..< Suc (length s - length t)])" using s by simp
    moreover have "take (length t) (drop (length ps) s) = t" using s by simp
    ultimately have "List.find (\<lambda>i. take (length t) (drop i s) = t)
        (rev [0 ..< Suc (length s - length t)]) \<noteq> None"
      unfolding find_None_iff by blast
    with n le show False by (simp add: lastIndexOf_def)
  qed
next
  assume ns: "\<not> sublist t s"
  show "lastIndexOf s t = None"
  proof (cases "lastIndexOf s t")
    case None then show ?thesis .
  next
    case (Some i)
    from lastIndexOf_Some(1,2)[OF Some]
    have "s = take i s @ t @ drop (i + length t) s"
      by (metis append_take_drop_id drop_drop add.commute)
    then have "sublist t s" unfolding sublist_def by blast
    with ns show ?thesis by simp
  qed
qed

lemma lastIndexOf_is_last:
  assumes "lastIndexOf s t = Some i" and "t \<noteq> []"
  shows "lastIndexOf (drop (Suc i) s) t = None"
proof -
  have "\<not> sublist t (drop (Suc i) s)"
  proof
    assume "sublist t (drop (Suc i) s)"
    then obtain ps ss where d: "drop (Suc i) s = ps @ t @ ss" by (auto simp: sublist_def)
    let ?j = "Suc i + length ps"
    have "drop ?j s = t @ ss"
      using d by (metis append_eq_conv_conj drop_drop add.commute)
    then have t: "take (length t) (drop ?j s) = t" by simp
    have "length (drop (Suc i) s) = length ps + length t + length ss" using d by simp
    moreover have "0 < length t" using assms(2) by simp
    ultimately have "?j + length t \<le> length s" by (simp only: length_drop)
    from lastIndexOf_Some(3)[OF assms(1) _ this] t show False by simp
  qed
  then show ?thesis by (simp add: lastIndexOf_None_iff)
qed

lemma sublist_single: "sublist [c] s \<longleftrightarrow> c \<in> set s"
  by (induction s) (auto simp: sublist_Cons_right)

lemma take_drop_length: "take n xs @ drop (length (take n xs)) xs = xs"
  by (cases "n \<le> length xs") (simp_all add: min_def)



section \<open>Facts about the chunk source\<close>

lemma remainingChunks_closed: "isClosed r \<Longrightarrow> remainingChunks r = []"
  by (subst remainingChunks.simps) simp

lemma remainingChunks_open:
  "\<not> isClosed r \<Longrightarrow> remainingChunks r = fst (read r) # remainingChunks (snd (read r))"
  by (subst remainingChunks.simps) (simp add: case_prod_unfold)

lemma wellFormed_open: "0 < bsize \<Longrightarrow> wellFormed (open_source (ChunkReader_new content bsize))"
  by (simp add: wellFormed_def open_source_def ChunkReader_new_def)

lemma wellFormed_reset: "wellFormed r \<Longrightarrow> wellFormed (reset r)"
  by (auto simp: wellFormed_def reset_def)

lemma wellFormed_read:
  "wellFormed r \<Longrightarrow> \<not> isClosed r \<Longrightarrow> wellFormed (snd (read r)) \<and> fst (read r) \<noteq> []"
  by (auto simp: wellFormed_def read_def Let_def)

lemma concat_remainingChunks:
  "wellFormed r \<Longrightarrow> concat (remainingChunks r) = drop (bytesRead r) (fileContent r)"
proof (induction r rule: remainingChunks.induct)
  case (1 r)
  show ?case
  proof (cases "isClosed r")
    case True
    with "1.prems" show ?thesis
      by (simp add: remainingChunks_closed wellFormed_def)
  next
    case False
    have wf: "wellFormed (snd (read r))" using wellFormed_read "1.prems" False by blast
    have "concat (remainingChunks (snd (read r)))
             = drop (bytesRead (snd (read r))) (fileContent (snd (read r)))"
      using "1.IH"[OF False _ wf] by (metis prod.collapse)
    then have "concat (remainingChunks (snd (read r)))
             = drop (length (fst (read r))) (drop (bytesRead r) (fileContent r))"
      by (simp add: read_def Let_def add.commute)
    moreover have "fst (read r) = take (bufferSize r) (drop (bytesRead r) (fileContent r))"
      by (simp add: read_def Let_def)
    ultimately show ?thesis
      using False take_drop_length[of "bufferSize r" "drop (bytesRead r) (fileContent r)"]
      by (simp add: remainingChunks_open)
  qed
qed



section \<open>The two loops over the chunks\<close>

lemma chunkVerdict_code:
  "chunkVerdict chunk =
     (if lastIndexOf chunk [CR, LF] \<noteq> None then Some SepCRLF
      else if lastIndexOf (butlast (tl chunk)) [LF] \<noteq> None then Some SepLF
      else if lastIndexOf (butlast (tl chunk)) [CR] \<noteq> None then Some SepCR
      else None)"
  by (simp add: chunkVerdict_def lastIndexOf_None_iff sublist_single)

lemma setSeparator_loop_result:
  "setSeparator_loop r = (found, r') \<Longrightarrow>
     (case found of None \<Rightarrow> SepCRLF | Some s \<Rightarrow> s) = detectSeparator (remainingChunks r)
     \<and> reset r' = reset r"
proof (induction r arbitrary: found r' rule: setSeparator_loop.induct)
  case (1 r)
  show ?case
  proof (cases "isClosed r")
    case True
    with "1.prems" show ?thesis
      by (subst (asm) setSeparator_loop.simps) (auto simp: remainingChunks_closed)
  next
    case False
    obtain chunk r1 where rd: "read r = (chunk, r1)" by (cases "read r")
    have rem: "remainingChunks r = chunk # remainingChunks r1"
      using False rd by (simp add: remainingChunks_open)
    have r1: "reset r1 = reset r"
      using rd by (auto simp: read_def Let_def reset_def)
    show ?thesis
    proof (cases "chunkVerdict chunk")
      case None
      then have eq: "setSeparator_loop r1 = (found, r')"
        using "1.prems" False rd
        by (subst (asm) setSeparator_loop.simps)
           (simp add: chunkVerdict_code Let_def split: if_splits)
      from None have c: "lastIndexOf chunk [CR, LF] = None"
        "lastIndexOf (butlast (tl chunk)) [LF] = None"
        "lastIndexOf (butlast (tl chunk)) [CR] = None"
        by (auto simp: chunkVerdict_code split: if_splits)
      have ih: "(case found of None \<Rightarrow> SepCRLF | Some s \<Rightarrow> s) = detectSeparator (remainingChunks r1)
     \<and> reset r' = reset r1"
        using "1.IH"[OF False rd[symmetric] _ refl _ _ eq] c by simp
      with r1 rem None show ?thesis by simp
    next
      case (Some s)
      then have "found = Some s" "r' = r1"
        using "1.prems" False rd
        by (subst (asm) setSeparator_loop.simps,
            simp add: chunkVerdict_code Let_def split: if_splits)+
      with rem Some r1 show ?thesis by simp
    qed
  qed
qed

lemma setSeparator_result:
  "setSeparator lr =
     (detectSeparator (remainingChunks (reader lr)),
      lr\<lparr>reader := reset (reader lr),
         separator := Some (detectSeparator (remainingChunks (reader lr)))\<rparr>)"
proof -
  obtain found r' where l: "setSeparator_loop (reader lr) = (found, r')"
    by (cases "setSeparator_loop (reader lr)")
  from setSeparator_loop_result[OF l] l show ?thesis
    by (simp add: setSeparator_def Let_def)
qed

lemma nextChunk_loop_result:
  "nextChunk_loop sep r chunks = (cs, cutAt, wasCut, r') \<Longrightarrow>
   (if wasCut
    then (\<exists>earlier newest foundAt.
            remainingChunks r = earlier @ newest # remainingChunks r'
          \<and> list_all (noSeparatorIn sep) earlier
          \<and> lastIndexOf newest (sepText sep) = Some foundAt
          \<and> cs = chunks @ concat earlier @ newest
          \<and> cutAt = length chunks + length (concat earlier) + foundAt)
    else isClosed r' \<and> cs = chunks @ concat (remainingChunks r)
         \<and> list_all (noSeparatorIn sep) (remainingChunks r) \<and> cutAt = 0)"
proof (induction sep r chunks arbitrary: cs cutAt wasCut r' rule: nextChunk_loop.induct)
  case (1 sep r chunks)
  show ?case
  proof (cases "isClosed r")
    case True
    with "1.prems" show ?thesis
      by (subst (asm) nextChunk_loop.simps) (auto simp: remainingChunks_closed)
  next
    case False
    obtain chunk r1 where rd: "read r = (chunk, r1)" by (cases "read r")
    have rem: "remainingChunks r = chunk # remainingChunks r1"
      using False rd by (simp add: remainingChunks_open)
    show ?thesis
    proof (cases "lastIndexOf chunk (sepText sep)")
      case None
      then have eq: "nextChunk_loop sep r1 (chunks @ chunk) = (cs, cutAt, wasCut, r')"
        using "1.prems" False rd by (subst (asm) nextChunk_loop.simps) simp
      have ih: "(if wasCut
    then (\<exists>earlier newest foundAt.
            remainingChunks r1 = earlier @ newest # remainingChunks r'
          \<and> list_all (noSeparatorIn sep) earlier
          \<and> lastIndexOf newest (sepText sep) = Some foundAt
          \<and> cs = (chunks @ chunk) @ concat earlier @ newest
          \<and> cutAt = length (chunks @ chunk) + length (concat earlier) + foundAt)
    else isClosed r' \<and> cs = (chunks @ chunk) @ concat (remainingChunks r1)
         \<and> list_all (noSeparatorIn sep) (remainingChunks r1) \<and> cutAt = 0)"
        using "1.IH"[OF False rd[symmetric] None eq] .
      show ?thesis
      proof (cases wasCut)
        case True
        with ih obtain earlier newest foundAt where
          e: "remainingChunks r1 = earlier @ newest # remainingChunks r'"
             "list_all (noSeparatorIn sep) earlier"
             "lastIndexOf newest (sepText sep) = Some foundAt"
             "cs = (chunks @ chunk) @ concat earlier @ newest"
             "cutAt = length (chunks @ chunk) + length (concat earlier) + foundAt"
          by auto
        have "remainingChunks r = (chunk # earlier) @ newest # remainingChunks r'
          \<and> list_all (noSeparatorIn sep) (chunk # earlier)
          \<and> lastIndexOf newest (sepText sep) = Some foundAt
          \<and> cs = chunks @ concat (chunk # earlier) @ newest
          \<and> cutAt = length chunks + length (concat (chunk # earlier)) + foundAt"
          using e rem None by (simp add: noSeparatorIn_def)
        with True show ?thesis by metis
      next
        case False
        with ih rem None show ?thesis by (simp add: noSeparatorIn_def)
      qed
    next
      case (Some foundAt)
      then have "cs = chunks @ chunk" "cutAt = length (chunks @ chunk) - length chunk + foundAt"
        "wasCut" "r' = r1"
        using "1.prems" False rd by (subst (asm) nextChunk_loop.simps, simp)+
      then have "remainingChunks r = [] @ chunk # remainingChunks r'
          \<and> list_all (noSeparatorIn sep) []
          \<and> lastIndexOf chunk (sepText sep) = Some foundAt
          \<and> cs = chunks @ concat [] @ chunk
          \<and> cutAt = length chunks + length (concat ([]::string list)) + foundAt"
        using rem Some by simp
      with \<open>wasCut\<close> show ?thesis by metis
    qed
  qed
qed

lemma wellFormed_loop:
  "wellFormed r \<Longrightarrow> nextChunk_loop sep r chunks = (cs, cutAt, wasCut, r') \<Longrightarrow> wellFormed r'"
proof (induction sep r chunks arbitrary: cs cutAt wasCut r' rule: nextChunk_loop.induct)
  case (1 sep r chunks)
  show ?case
  proof (cases "isClosed r")
    case True
    with "1.prems" show ?thesis
      by (subst (asm) nextChunk_loop.simps) auto
  next
    case False
    obtain chunk r1 where rd: "read r = (chunk, r1)" by (cases "read r")
    have wf1: "wellFormed r1" using wellFormed_read[OF "1.prems"(1) False] rd by simp
    show ?thesis
    proof (cases "lastIndexOf chunk (sepText sep)")
      case None
      then have eq: "nextChunk_loop sep r1 (chunks @ chunk) = (cs, cutAt, wasCut, r')"
        using "1.prems"(2) False rd by (subst (asm) nextChunk_loop.simps) simp
      show ?thesis using "1.IH"[OF False rd[symmetric] None wf1 eq] .
    next
      case (Some foundAt)
      then have "r' = r1"
        using "1.prems"(2) False rd by (subst (asm) nextChunk_loop.simps) simp
      with wf1 show ?thesis by simp
    qed
  qed
qed



lemma nextChunk_cut:
  assumes "separator lr = Some sep" and "nextChunk lr = (data, lr')"
    and "\<not> isClosed (reader lr')"
  shows "\<exists>earlier newest foundAt.
           remainingChunks (reader lr) = earlier @ newest # remainingChunks (reader lr')
         \<and> list_all (noSeparatorIn sep) earlier
         \<and> lastIndexOf newest (sepText sep) = Some foundAt
         \<and> data = fragment lr @ concat earlier @ take foundAt newest
         \<and> cutted lr' = Some (drop (foundAt + length (sepText sep)) newest)"
proof -
  obtain cs cutAt wasCut r' where l: "nextChunk_loop sep (reader lr) [] = (cs, cutAt, wasCut, r')"
    by (cases "nextChunk_loop sep (reader lr) []")
  from assms l have r': "\<not> isClosed r'" "reader lr' = r'"
    by (auto simp: nextChunk_def Let_def split: if_splits)
  with nextChunk_loop_result[OF l] have w: wasCut by (auto split: if_splits)
  with nextChunk_loop_result[OF l] obtain earlier newest foundAt where
    e: "remainingChunks (reader lr) = earlier @ newest # remainingChunks r'"
       "list_all (noSeparatorIn sep) earlier"
       "lastIndexOf newest (sepText sep) = Some foundAt"
       "cs = concat earlier @ newest"
       "cutAt = length (concat earlier) + foundAt"
    by auto
  have "nextChunk lr =
          (fragment lr @ concat earlier @ take foundAt newest,
           lr\<lparr>reader := r',
              cutted := Some (drop (foundAt + length (sepText sep)) newest)\<rparr>)"
    using assms(1) l r'(1) w e(4,5) by (simp add: nextChunk_def Let_def fragment_def)
  with assms(2) have "data = fragment lr @ concat earlier @ take foundAt newest
         \<and> cutted lr' = Some (drop (foundAt + length (sepText sep)) newest)"
    by auto
  with e(1,2,3) r'(2) show ?thesis by blast
qed

lemma nextChunk_loop_bytesLength:
  "nextChunk_loop sep r chunks = (cs, cutAt, wasCut, r') \<Longrightarrow> bytesLength r' = bytesLength r"
proof (induction sep r chunks arbitrary: cs cutAt wasCut r' rule: nextChunk_loop.induct)
  case (1 sep r chunks)
  show ?case
  proof (cases "isClosed r")
    case True
    with "1.prems" show ?thesis
      by (subst (asm) nextChunk_loop.simps) auto
  next
    case False
    obtain chunk r1 where rd: "read r = (chunk, r1)" by (cases "read r")
    then have b1: "bytesLength r1 = bytesLength r" by (auto simp: read_def Let_def)
    show ?thesis
    proof (cases "lastIndexOf chunk (sepText sep)")
      case None
      then have eq: "nextChunk_loop sep r1 (chunks @ chunk) = (cs, cutAt, wasCut, r')"
        using "1.prems" False rd by (subst (asm) nextChunk_loop.simps) simp
      show ?thesis using "1.IH"[OF False rd[symmetric] None eq] b1 by simp
    next
      case (Some foundAt)
      then have "r' = r1"
        using "1.prems" False rd by (subst (asm) nextChunk_loop.simps) simp
      with b1 show ?thesis by simp
    qed
  qed
qed

lemma nextChunk_bytesLength:
  assumes "separator lr = Some sep" and "nextChunk lr = (data, lr2)"
  shows "bytesLength (reader lr2) = bytesLength (reader lr)"
proof -
  obtain cs cutAt wasCut r' where l: "nextChunk_loop sep (reader lr) [] = (cs, cutAt, wasCut, r')"
    by (cases "nextChunk_loop sep (reader lr) []")
  from assms l have "reader lr2 = r'"
    by (auto simp: nextChunk_def Let_def split: if_splits)
  with nextChunk_loop_bytesLength[OF l] show ?thesis by simp
qed

section \<open>The skip set and the filter stage\<close>

lemma addSkipNumbers_member:
  "n \<in> addSkipNumbers ns b \<longleftrightarrow> inSkipList ns n \<or> n \<in> b"
  by (induction ns b rule: addSkipNumbers.induct)
     (auto simp: inSkipList_def bitset_add_def bitset_addRange_def)

lemma skips_new:
  "bitset_has (skips (LineReader_new content bsize opts)) n \<longleftrightarrow>
     (case skipNumbers opts of None \<Rightarrow> False | Some ns \<Rightarrow> inSkipList ns n)"
  by (simp add: LineReader_new_def bitset_has_def addSkipNumbers_member split: option.split)

lemma keptLines_Nil: "keptLines opts c [] = []"
  by (simp add: keptLines_def)

lemma upt_shift: "[Suc c ..< Suc c + Suc k] = Suc c # [Suc (Suc c) ..< Suc (Suc c) + k]"
  by (simp add: upt_rec)

lemma keptLines_Cons:
  "keptLines opts c (t # ts) =
     (if \<not> (case skipNumbers opts of None \<Rightarrow> False | Some ns \<Rightarrow> inSkipList ns (int (Suc c)))
         \<and> \<not> (skipBlank opts \<and> trim t = [])
      then (t, Suc c) # keptLines opts (Suc c) ts else keptLines opts (Suc c) ts)"
  unfolding keptLines_def length_Cons upt_shift by simp

lemma pushLines_unfiltered:
  "\<not> skipBlank (options lr) \<Longrightarrow> skipNumbers (options lr) = None \<Longrightarrow>
   pushLines texts lr =
     lr\<lparr>buffer := buffer lr @ zip texts [Suc (count lr) ..< Suc (count lr) + length texts],
        count := count lr + length texts\<rparr>"
proof (induction texts arbitrary: lr)
  case Nil
  then show ?case by simp
next
  case (Cons t ts)
  let ?lr' = "lr\<lparr>count := count lr + 1, buffer := buffer lr @ [(t, count lr + 1)]\<rparr>"
  have "pushLines (t # ts) lr = pushLines ts ?lr'"
    using Cons.prems by (simp add: Let_def)
  also have "\<dots> = ?lr'\<lparr>buffer := buffer ?lr' @ zip ts [Suc (count ?lr') ..< Suc (count ?lr') + length ts],
        count := count ?lr' + length ts\<rparr>"
    using Cons.prems by (intro Cons.IH) simp_all
  also have "\<dots> = lr\<lparr>buffer := buffer lr @ zip (t # ts) [Suc (count lr) ..< Suc (count lr) + length (t # ts)],
        count := count lr + length (t # ts)\<rparr>"
    unfolding length_Cons upt_shift by simp
  finally show ?case .
qed



text \<open>The constructor over a skip set that may raise.\<close>

lemma addSkipNumbersWith_total:
  "addSkipNumbersWith (\<lambda>n b. Inr (bitset_add n b)) (\<lambda>a z b. Inr (bitset_addRange a z b)) ns b
     = Inr (addSkipNumbers ns b)"
  by (induction ns b rule: addSkipNumbers.induct) simp_all

lemma LineReader_newWith_total:
  "LineReader_newWith (\<lambda>n b. Inr (bitset_add n b)) (\<lambda>a z b. Inr (bitset_addRange a z b))
     content bsize opts = Inr (LineReader_new content bsize opts)"
  by (simp add: LineReader_newWith_def LineReader_new_def addSkipNumbersWith_total
        split: option.splits)

lemma addSkipNumbersWith_error:
  "addSkipNumbersWith add addRange ns b0 = Inl err \<Longrightarrow>
     \<exists>b. (\<exists>n. Single n \<in> set ns \<and> add n b = Inl err)
        \<or> (\<exists>s e. Range s e \<in> set ns \<and> addRange s (e + 1) b = Inl err)"
proof (induction add addRange ns b0 rule: addSkipNumbersWith.induct)
  case (1 add addRange b)
  then show ?case by simp
next
  case (2 add addRange s e rest b)
  show ?case
  proof (cases "addRange s (e + 1) b")
    case (Inl err')
    with "2.prems" have "addRange s (e + 1) b = Inl err" by simp
    then show ?thesis by auto
  next
    case (Inr b')
    with "2.prems" have "addSkipNumbersWith add addRange rest b' = Inl err" by simp
    from "2.IH"[OF Inr this] show ?thesis by auto
  qed
next
  case (3 add addRange n rest b)
  show ?case
  proof (cases "add n b")
    case (Inl err')
    with "3.prems" have "add n b = Inl err" by simp
    then show ?thesis by auto
  next
    case (Inr b')
    with "3.prems" have "addSkipNumbersWith add addRange rest b' = Inl err" by simp
    from "3.IH"[OF Inr this] show ?thesis by auto
  qed
qed

lemma addSkipNumbersWith_append:
  "addSkipNumbersWith add addRange (xs @ ys) b =
     (case addSkipNumbersWith add addRange xs b of
        Inl err \<Rightarrow> Inl err
      | Inr b' \<Rightarrow> addSkipNumbersWith add addRange ys b')"
  by (induction add addRange xs b rule: addSkipNumbersWith.induct)
     (auto split: sum.splits)

section \<open>Reading a whole file without a limit\<close>

lemma removeFront_all: "q \<noteq> [] \<Longrightarrow> removeFront (int (length q)) q = (q, [])"
  by (cases q) (simp_all add: removeFront_def)

lemma zip_upt_append:
  "zip (xs @ ys) [a ..< a + (length xs + length ys)]
     = zip xs [a ..< a + length xs] @ zip ys [a + length xs ..< a + length xs + length ys]"
proof -
  have "[a ..< a + (length xs + length ys)]
          = [a ..< a + length xs] @ [a + length xs ..< a + length xs + length ys]"
    using upt_add_eq_append[of a "a + length xs" "length ys"] by (simp add: add.assoc)
  then show ?thesis by simp
qed

lemma numbered_not_Nil: "texts \<noteq> [] \<Longrightarrow> numbered c texts \<noteq> []"
  by (cases texts) (simp_all add: numbered_def upt_rec)

lemma numbered_append:
  "numbered c (xs @ ys) = numbered c xs @ numbered (c + length xs) ys"
  using zip_upt_append[of xs ys "Suc c"] by (simp add: numbered_def)

lemma map_fst_numbered: "map fst (numbered c texts) = texts"
  unfolding numbered_def by (rule map_fst_zip) (simp del: upt_Suc)

lemma map_snd_numbered: "map snd (numbered c texts) = [Suc c ..< Suc c + length texts]"
  unfolding numbered_def by (rule map_snd_zip) (simp del: upt_Suc)

lemma fetch_result:
  assumes sep: "separator lr = Some sep"
    and b: "buffer lr = []"
    and wf: "wellFormed (reader lr)"
    and nc: "\<not> isClosed (reader lr)"
  shows "\<exists>data lr2.
           nextChunk lr = (data, lr2)
         \<and> (data \<noteq> [] \<or> \<not> LineReader_isClosed lr2)
         \<and> count lr2 = count lr \<and> buffer lr2 = [] \<and> separator lr2 = Some sep
         \<and> options lr2 = options lr \<and> skips lr2 = skips lr
         \<and> wellFormed (reader lr2) \<and> bytesLength (reader lr2) = bytesLength (reader lr)
         \<and> (if isClosed (reader lr2)
            then cutted lr2 = None \<and> data = fragment lr @ concat (remainingChunks (reader lr))
            else cutted lr2 \<noteq> None
               \<and> fragment lr @ concat (remainingChunks (reader lr))
                   = data @ sepText sep @ fragment lr2 @ concat (remainingChunks (reader lr2))
               \<and> length (remainingChunks (reader lr2)) < length (remainingChunks (reader lr)))"
proof -
  obtain cs cutAt wasCut r' where l: "nextChunk_loop sep (reader lr) [] = (cs, cutAt, wasCut, r')"
    by (cases "nextChunk_loop sep (reader lr) []")
  note res = nextChunk_loop_result[OF l]
  have wf': "wellFormed r'" using wellFormed_loop[OF wf l] .
  have first: "remainingChunks (reader lr) \<noteq> [] \<and> hd (remainingChunks (reader lr)) \<noteq> []"
    using wellFormed_read[OF wf nc] nc by (simp add: remainingChunks_open)
  obtain data lr2 where n: "nextChunk lr = (data, lr2)" by (cases "nextChunk lr")
  have lr2: "reader lr2 = r'" "buffer lr2 = []" "separator lr2 = Some sep"
    "options lr2 = options lr" "count lr2 = count lr" "skips lr2 = skips lr"
    using n sep l b by (auto simp: nextChunk_def Let_def split: if_splits)
  have tail: "if isClosed r'
            then cutted lr2 = None \<and> data = fragment lr @ concat (remainingChunks (reader lr))
            else cutted lr2 \<noteq> None
               \<and> fragment lr @ concat (remainingChunks (reader lr))
                   = data @ sepText sep @ fragment lr2 @ concat (remainingChunks r')
               \<and> length (remainingChunks r') < length (remainingChunks (reader lr))"
  proof (cases "isClosed r'")
    case True
    have "cs = concat (remainingChunks (reader lr))"
      using res True by (cases wasCut) (auto simp: remainingChunks_closed)
    with True n sep l show ?thesis
      by (auto simp: nextChunk_def Let_def fragment_def)
  next
    case False
    from nextChunk_cut[OF sep n] False lr2(1) obtain earlier newest foundAt where
      e: "remainingChunks (reader lr) = earlier @ newest # remainingChunks r'"
         "lastIndexOf newest (sepText sep) = Some foundAt"
         "data = fragment lr @ concat earlier @ take foundAt newest"
         "cutted lr2 = Some (drop (foundAt + length (sepText sep)) newest)"
      by auto
    have newest: "newest = take foundAt newest @ sepText sep
                      @ drop (foundAt + length (sepText sep)) newest"
      using lastIndexOf_Some(1,2)[OF e(2)]
      by (metis append_take_drop_id drop_drop add.commute)
    have f2: "fragment lr2 = drop (foundAt + length (sepText sep)) newest"
      using e(4) by (simp add: fragment_def)
    have "fragment lr @ concat (remainingChunks (reader lr))
            = fragment lr @ concat earlier @ newest @ concat (remainingChunks r')"
      using e(1) by simp
    also have "\<dots> = data @ sepText sep @ fragment lr2 @ concat (remainingChunks r')"
      unfolding e(3) f2 by (subst (1) newest) simp
    finally show ?thesis using False e(1,4) by simp
  qed
  have pushed: "data \<noteq> [] \<or> \<not> LineReader_isClosed lr2"
  proof (cases "isClosed r'")
    case True
    with tail first show ?thesis
      by (cases "remainingChunks (reader lr)") auto
  next
    case False
    with tail show ?thesis by (simp add: LineReader_isClosed_def)
  qed
  from n pushed lr2 wf' tail nextChunk_bytesLength[OF sep n] show ?thesis by simp
qed

lemma fetch_and_push:
  assumes sep: "separator lr = Some sep"
    and nf: "\<not> skipBlank (options lr)" "skipNumbers (options lr) = None"
    and b: "buffer lr = []"
    and wf: "wellFormed (reader lr)"
    and nc: "\<not> isClosed (reader lr)"
    and lim: "limit = None \<or> limit = Some 1"
  shows "\<exists>data lr2.
           readLinesWithNumbers limit lr =
             (case removeFront (if limit = None
                                then int (length (numbered (count lr) (split (sepText sep) data)))
                                else 1)
                     (numbered (count lr) (split (sepText sep) data)) of
                (lines, rest) \<Rightarrow>
                   (lines, lr2\<lparr>buffer := rest, count := count lr + length (split (sepText sep) data)\<rparr>))
         \<and> buffer lr2 = [] \<and> separator lr2 = Some sep \<and> options lr2 = options lr
         \<and> wellFormed (reader lr2) \<and> bytesLength (reader lr2) = bytesLength (reader lr)
         \<and> (if isClosed (reader lr2)
            then cutted lr2 = None \<and> data = fragment lr @ concat (remainingChunks (reader lr))
            else cutted lr2 \<noteq> None
               \<and> fragment lr @ concat (remainingChunks (reader lr))
                   = data @ sepText sep @ fragment lr2 @ concat (remainingChunks (reader lr2))
               \<and> length (remainingChunks (reader lr2)) < length (remainingChunks (reader lr)))"
proof -
  from fetch_result[OF sep b wf nc] obtain data lr2 where
    n: "nextChunk lr = (data, lr2)"
    and pushed: "data \<noteq> [] \<or> \<not> LineReader_isClosed lr2"
    and lr2: "count lr2 = count lr" "buffer lr2 = []" "separator lr2 = Some sep"
      "options lr2 = options lr" "wellFormed (reader lr2)"
      "bytesLength (reader lr2) = bytesLength (reader lr)"
    and tail: "if isClosed (reader lr2)
            then cutted lr2 = None \<and> data = fragment lr @ concat (remainingChunks (reader lr))
            else cutted lr2 \<noteq> None
               \<and> fragment lr @ concat (remainingChunks (reader lr))
                   = data @ sepText sep @ fragment lr2 @ concat (remainingChunks (reader lr2))
               \<and> length (remainingChunks (reader lr2)) < length (remainingChunks (reader lr))"
    by blast
  have op: "isOpened (reader lr)" "bytesLength (reader lr) \<noteq> 0"
    using wf nc by (auto simp: wellFormed_def)
  let ?texts = "split (sepText sep) data"
  have nf2: "\<not> skipBlank (options lr2)" "skipNumbers (options lr2) = None"
    using nf lr2 by simp_all
  have p: "pushLines ?texts lr2 =
      lr2\<lparr>buffer := numbered (count lr) ?texts, count := count lr + length ?texts\<rparr>"
    using pushLines_unfiltered[OF nf2, of ?texts] lr2 by (simp add: numbered_def)
  have "readLinesWithNumbers limit lr =
             (case removeFront (if limit = None
                                then int (length (numbered (count lr) ?texts))
                                else 1)
                     (numbered (count lr) ?texts) of
                (lines, rest) \<Rightarrow>
                   (lines, lr2\<lparr>buffer := rest, count := count lr + length ?texts\<rparr>))"
    using op n pushed p lr2(3) lim b
    by (auto simp: readLinesWithNumbers_def noLimit_def Let_def split: prod.splits)
  with lr2 tail show ?thesis by blast
qed

lemma unlimited_step:
  assumes sep: "separator lr = Some sep"
    and nf: "\<not> skipBlank (options lr)" "skipNumbers (options lr) = None"
    and b: "buffer lr = []"
    and wf: "wellFormed (reader lr)"
    and nc: "\<not> isClosed (reader lr)"
  shows "\<exists>data lr2.
           readLinesWithNumbers None lr = (numbered (count lr) (split (sepText sep) data), lr2)
         \<and> count lr2 = count lr + length (split (sepText sep) data)
         \<and> buffer lr2 = [] \<and> separator lr2 = Some sep \<and> options lr2 = options lr
         \<and> wellFormed (reader lr2)
         \<and> (if isClosed (reader lr2)
            then cutted lr2 = None \<and> data = fragment lr @ concat (remainingChunks (reader lr))
            else cutted lr2 \<noteq> None
               \<and> fragment lr @ concat (remainingChunks (reader lr))
                   = data @ sepText sep @ fragment lr2 @ concat (remainingChunks (reader lr2))
               \<and> length (remainingChunks (reader lr2)) < length (remainingChunks (reader lr)))"
proof -
  from fetch_and_push[OF sep nf b wf nc, of None] obtain data lr2 where
    st: "readLinesWithNumbers None lr =
             (case removeFront (int (length (numbered (count lr) (split (sepText sep) data))))
                     (numbered (count lr) (split (sepText sep) data)) of
                (lines, rest) \<Rightarrow>
                   (lines, lr2\<lparr>buffer := rest, count := count lr + length (split (sepText sep) data)\<rparr>))"
    and lr2: "buffer lr2 = []" "separator lr2 = Some sep" "options lr2 = options lr"
      "wellFormed (reader lr2)"
    and tail: "if isClosed (reader lr2)
            then cutted lr2 = None \<and> data = fragment lr @ concat (remainingChunks (reader lr))
            else cutted lr2 \<noteq> None
               \<and> fragment lr @ concat (remainingChunks (reader lr))
                   = data @ sepText sep @ fragment lr2 @ concat (remainingChunks (reader lr2))
               \<and> length (remainingChunks (reader lr2)) < length (remainingChunks (reader lr))"
    by auto
  let ?texts = "split (sepText sep) data"
  let ?lr3 = "lr2\<lparr>buffer := [], count := count lr + length ?texts\<rparr>"
  have rf: "removeFront (int (length (numbered (count lr) ?texts))) (numbered (count lr) ?texts)
              = (numbered (count lr) ?texts, [])"
    by (intro removeFront_all numbered_not_Nil split_not_Nil)
  have "readLinesWithNumbers None lr = (numbered (count lr) ?texts, ?lr3)"
    using st rf by simp
  moreover have "fragment ?lr3 = fragment lr2"
    by (simp add: fragment_def)
  ultimately show ?thesis
    using tail lr2
    by (intro exI[of _ data] exI[of _ ?lr3]) (simp split: if_splits)
qed

lemma readAll_unlimited_from:
  assumes "separator lr = Some sep"
    and "\<not> skipBlank (options lr)" "skipNumbers (options lr) = None"
    and "buffer lr = []"
    and "wellFormed (reader lr)"
    and "\<not> isClosed (reader lr)"
  shows "\<exists>lr'. readAll None acc lr =
             Some (acc @ numbered (count lr)
                           (split (sepText sep)
                              (fragment lr @ concat (remainingChunks (reader lr)))), lr')
           \<and> LineReader_isClosed lr'"
  using assms
proof (induction "length (remainingChunks (reader lr))" arbitrary: lr acc rule: less_induct)
  case less
  from unlimited_step[OF less.prems] obtain data lr2 where
    st: "readLinesWithNumbers None lr = (numbered (count lr) (split (sepText sep) data), lr2)"
      "count lr2 = count lr + length (split (sepText sep) data)"
      "buffer lr2 = []" "separator lr2 = Some sep" "options lr2 = options lr"
      "wellFormed (reader lr2)"
    and tail: "if isClosed (reader lr2)
            then cutted lr2 = None \<and> data = fragment lr @ concat (remainingChunks (reader lr))
            else cutted lr2 \<noteq> None
               \<and> fragment lr @ concat (remainingChunks (reader lr))
                   = data @ sepText sep @ fragment lr2 @ concat (remainingChunks (reader lr2))
               \<and> length (remainingChunks (reader lr2)) < length (remainingChunks (reader lr))"
    by blast
  have nc: "\<not> LineReader_isClosed lr"
    using less.prems by (simp add: LineReader_isClosed_def)
  have unfold: "readAll None acc lr
                  = readAll None (acc @ numbered (count lr) (split (sepText sep) data)) lr2"
    using nc st(1) by (subst readAll.simps) simp
  show ?case
  proof (cases "isClosed (reader lr2)")
    case True
    with tail st(3) have c: "LineReader_isClosed lr2"
      by (simp add: LineReader_isClosed_def)
    then have "readAll None (acc @ numbered (count lr) (split (sepText sep) data)) lr2
                 = Some (acc @ numbered (count lr) (split (sepText sep) data), lr2)"
      by (subst readAll.simps) simp
    with unfold tail True c show ?thesis by simp
  next
    case False
    with tail have
      eq: "fragment lr @ concat (remainingChunks (reader lr))
             = data @ sepText sep @ fragment lr2 @ concat (remainingChunks (reader lr2))"
      and lt: "length (remainingChunks (reader lr2)) < length (remainingChunks (reader lr))"
      by simp_all
    have nf2: "\<not> skipBlank (options lr2)" "skipNumbers (options lr2) = None"
      using less.prems st(5) by simp_all
    from less.hyps[OF lt st(4) nf2 st(3) st(6) False,
        of "acc @ numbered (count lr) (split (sepText sep) data)"]
    obtain lr' where
      r: "readAll None (acc @ numbered (count lr) (split (sepText sep) data)) lr2 =
             Some ((acc @ numbered (count lr) (split (sepText sep) data))
                    @ numbered (count lr2)
                           (split (sepText sep)
                              (fragment lr2 @ concat (remainingChunks (reader lr2)))), lr')"
      and c: "LineReader_isClosed lr'"
      by blast
    have "split (sepText sep) (fragment lr @ concat (remainingChunks (reader lr)))
            = split (sepText sep) data
              @ split (sepText sep) (fragment lr2 @ concat (remainingChunks (reader lr2)))"
      unfolding eq by (rule split_append_sep)
    then have "numbered (count lr) (split (sepText sep) (fragment lr @ concat (remainingChunks (reader lr))))
            = numbered (count lr) (split (sepText sep) data)
              @ numbered (count lr2) (split (sepText sep) (fragment lr2 @ concat (remainingChunks (reader lr2))))"
      by (simp add: numbered_append st(2))
    with unfold r c show ?thesis by simp
  qed
qed

lemma readLinesWithNumbers_opens:
  "readLinesWithNumbers limit lr = readLinesWithNumbers limit (openReader lr)"
  by (simp add: readLinesWithNumbers_def openReader_def open_source_def)

lemma readAll_unlimited:
  assumes "0 < bsize" and "content \<noteq> []"
  shows "\<exists>lr'. readAll None []
                 (LineReader_new content bsize
                    \<lparr>lineSeparator = Some sep, skipBlank = False, skipNumbers = None\<rparr>)
               = Some (numbered 0 (split (sepText sep) content), lr')
             \<and> LineReader_isClosed lr'"
proof -
  let ?lr0 = "LineReader_new content bsize
                \<lparr>lineSeparator = Some sep, skipBlank = False, skipNumbers = None\<rparr>"
  let ?lr1 = "openReader ?lr0"
  have r1: "reader ?lr1 = open_source (ChunkReader_new content bsize)"
    by (simp add: openReader_def LineReader_new_def)
  have wf: "wellFormed (reader ?lr1)"
    unfolding r1 using assms(1) by (rule wellFormed_open)
  have nc1: "\<not> isClosed (reader ?lr1)"
    unfolding r1 using assms(2) by (simp add: open_source_def ChunkReader_new_def)
  have p: "separator ?lr1 = Some sep" "\<not> skipBlank (options ?lr1)"
    "skipNumbers (options ?lr1) = None" "buffer ?lr1 = []"
    by (simp_all add: openReader_def LineReader_new_def)
  have whole: "fragment ?lr1 @ concat (remainingChunks (reader ?lr1)) = content"
    using concat_remainingChunks[OF wf]
    by (simp add: fragment_def openReader_def LineReader_new_def open_source_def
          ChunkReader_new_def)
  have c0: "count ?lr1 = 0"
    by (simp add: openReader_def LineReader_new_def)
  have nc0: "\<not> LineReader_isClosed ?lr0"
    by (simp add: LineReader_isClosed_def LineReader_new_def ChunkReader_new_def)
  have nc1': "\<not> LineReader_isClosed ?lr1"
    using nc1 by (simp add: LineReader_isClosed_def)
  have "readAll None [] ?lr0 =
          (case readLinesWithNumbers None ?lr0 of (received, lr') \<Rightarrow> readAll None ([] @ received) lr')"
    using nc0 by (subst readAll.simps) simp
  moreover have "readAll None [] ?lr1 =
          (case readLinesWithNumbers None ?lr1 of (received, lr') \<Rightarrow> readAll None ([] @ received) lr')"
    using nc1' by (subst readAll.simps) simp
  ultimately have "readAll None [] ?lr0 = readAll None [] ?lr1"
    using readLinesWithNumbers_opens[of None ?lr0] by simp
  with readAll_unlimited_from[OF p wf nc1, of "[]"] whole c0 show ?thesis
    by simp
qed

lemma empty_read:
  "readLinesWithNumbers limit (LineReader_new [] bsize opts)
     = ([], openReader (LineReader_new [] bsize opts))"
  by (simp add: readLinesWithNumbers_def LineReader_new_def ChunkReader_new_def
        openReader_def open_source_def)

lemma empty_closed: "LineReader_isClosed (openReader (LineReader_new [] bsize opts))"
  by (simp add: LineReader_isClosed_def LineReader_new_def ChunkReader_new_def
        openReader_def open_source_def)

lemma new_not_closed: "\<not> LineReader_isClosed (LineReader_new content bsize opts)"
  by (simp add: LineReader_isClosed_def LineReader_new_def ChunkReader_new_def)



text \<open>
  Without a limit and without filters the delivered texts are the raw lines of the
  file and their numbers are 1, 2, ... in order.
\<close>

lemma unlimited_numbers:
  assumes "0 < bsize" and "content \<noteq> []"
  shows "\<exists>received lr'.
           readAll None []
             (LineReader_new content bsize
                \<lparr>lineSeparator = Some sep, skipBlank = False, skipNumbers = None\<rparr>)
             = Some (received, lr')
         \<and> map fst received = split (sepText sep) content
         \<and> map snd received = [1 ..< Suc (length (split (sepText sep) content))]"
proof -
  from readAll_unlimited[OF assms, of sep] obtain lr' where
    "readAll None []
       (LineReader_new content bsize
          \<lparr>lineSeparator = Some sep, skipBlank = False, skipNumbers = None\<rparr>)
       = Some (numbered 0 (split (sepText sep) content), lr')"
    by blast
  moreover have "map snd (numbered 0 (split (sepText sep) content))
                   = [1 ..< Suc (length (split (sepText sep) content))]"
    using map_snd_numbered[of 0 "split (sepText sep) content"] by (simp del: upt_Suc)
  ultimately show ?thesis
    using map_fst_numbered by blast
qed



section \<open>Reading a whole file one line at a time\<close>

lemma drain_one_by_one:
  assumes op: "isOpened (reader lr)" "bytesLength (reader lr) \<noteq> 0"
    and base: "\<And>acc. \<exists>lr'. readAll (Some 1) acc (lr\<lparr>buffer := []\<rparr>) = Some (acc @ later, lr')
                          \<and> LineReader_isClosed lr'"
  shows "\<exists>lr'. readAll (Some 1) acc (lr\<lparr>buffer := queued\<rparr>) = Some (acc @ queued @ later, lr')
               \<and> LineReader_isClosed lr'"
proof (induction queued arbitrary: acc)
  case Nil
  from base[of acc] show ?case by simp
next
  case (Cons x xs)
  have nc: "\<not> LineReader_isClosed (lr\<lparr>buffer := x # xs\<rparr>)"
    by (simp add: LineReader_isClosed_def)
  have "readLinesWithNumbers (Some 1) (lr\<lparr>buffer := x # xs\<rparr>) = ([x], lr\<lparr>buffer := xs\<rparr>)"
    using op by (simp add: readLinesWithNumbers_def noLimit_def removeFront_def Let_def)
  then have "readAll (Some 1) acc (lr\<lparr>buffer := x # xs\<rparr>)
               = readAll (Some 1) (acc @ [x]) (lr\<lparr>buffer := xs\<rparr>)"
    using nc by (subst readAll.simps) simp
  with Cons.IH[of "acc @ [x]"] show ?case by simp
qed

lemma readAll_one_from:
  assumes "separator lr = Some sep"
    and "\<not> skipBlank (options lr)" "skipNumbers (options lr) = None"
    and "buffer lr = []"
    and "wellFormed (reader lr)"
    and "bytesLength (reader lr) \<noteq> 0"
    and "isClosed (reader lr) \<longrightarrow> cutted lr = None"
  shows "\<exists>lr'. readAll (Some 1) acc lr =
             Some (acc @ (if isClosed (reader lr) then []
                          else numbered (count lr)
                                 (split (sepText sep)
                                    (fragment lr @ concat (remainingChunks (reader lr))))), lr')
           \<and> LineReader_isClosed lr'"
  using assms
proof (induction "length (remainingChunks (reader lr))" arbitrary: lr acc rule: less_induct)
  case less
  show ?case
  proof (cases "isClosed (reader lr)")
    case True
    with less.prems have "LineReader_isClosed lr" by (simp add: LineReader_isClosed_def)
    then have "readAll (Some 1) acc lr = Some (acc, lr) \<and> LineReader_isClosed lr"
      by (subst readAll.simps) simp
    with True show ?thesis by simp
  next
    case False
    let ?P = "fragment lr @ concat (remainingChunks (reader lr))"
    from fetch_and_push[OF less.prems(1-5) False, of "Some 1"] obtain data lr2 where
      st: "readLinesWithNumbers (Some 1) lr =
             (case removeFront 1 (numbered (count lr) (split (sepText sep) data)) of
                (lines, rest) \<Rightarrow>
                   (lines, lr2\<lparr>buffer := rest, count := count lr + length (split (sepText sep) data)\<rparr>))"
      and lr2: "buffer lr2 = []" "separator lr2 = Some sep" "options lr2 = options lr"
        "wellFormed (reader lr2)" "bytesLength (reader lr2) = bytesLength (reader lr)"
      and tail: "if isClosed (reader lr2)
            then cutted lr2 = None \<and> data = ?P
            else cutted lr2 \<noteq> None
               \<and> ?P = data @ sepText sep @ fragment lr2 @ concat (remainingChunks (reader lr2))
               \<and> length (remainingChunks (reader lr2)) < length (remainingChunks (reader lr))"
      by auto
    let ?n = "length (split (sepText sep) data)"
    let ?N = "numbered (count lr) (split (sepText sep) data)"
    let ?lr3 = "lr2\<lparr>count := count lr + ?n\<rparr>"
    obtain x xs where N: "?N = x # xs"
      using numbered_not_Nil[OF split_not_Nil, of "count lr" "sepText sep" data]
      by (cases ?N) auto
    have nc: "\<not> LineReader_isClosed lr"
      using False by (simp add: LineReader_isClosed_def)
    have bl: "bytesLength (reader lr2) \<noteq> 0"
      using lr2(5) less.prems(6) by simp
    have step0: "readAll (Some 1) acc lr
                   = readAll (Some 1) (acc @ [x]) (lr2\<lparr>buffer := xs, count := count lr + ?n\<rparr>)"
      using nc st N by (subst readAll.simps) (simp add: removeFront_def)
    have eq4: "?lr3\<lparr>buffer := xs\<rparr> = lr2\<lparr>buffer := xs, count := count lr + ?n\<rparr>"
      by simp
    have step: "readAll (Some 1) acc lr = readAll (Some 1) (acc @ [x]) (?lr3\<lparr>buffer := xs\<rparr>)"
      unfolding eq4 by (rule step0)
    have op3: "isOpened (reader ?lr3)" "bytesLength (reader ?lr3) \<noteq> 0"
      using lr2(4) bl by (simp_all add: wellFormed_def)
    let ?later = "if isClosed (reader lr2) then []
                  else numbered (count lr + ?n)
                         (split (sepText sep) (fragment lr2 @ concat (remainingChunks (reader lr2))))"
    have base: "\<exists>lr'. readAll (Some 1) a (?lr3\<lparr>buffer := []\<rparr>) = Some (a @ ?later, lr')
                          \<and> LineReader_isClosed lr'" for a
    proof (cases "isClosed (reader lr2)")
      case True
      with tail have "LineReader_isClosed (?lr3\<lparr>buffer := []\<rparr>)"
        by (simp add: LineReader_isClosed_def)
      then have "readAll (Some 1) a (?lr3\<lparr>buffer := []\<rparr>) = Some (a, ?lr3\<lparr>buffer := []\<rparr>)
             \<and> LineReader_isClosed (?lr3\<lparr>buffer := []\<rparr>)"
        by (subst readAll.simps) simp
      with True show ?thesis by auto
    next
      case c: False
      with tail have lt: "length (remainingChunks (reader (?lr3\<lparr>buffer := []\<rparr>)))
                            < length (remainingChunks (reader lr))"
        by simp
      have "\<exists>lr'. readAll (Some 1) a (?lr3\<lparr>buffer := []\<rparr>) =
             Some (a @ (if isClosed (reader (?lr3\<lparr>buffer := []\<rparr>)) then []
                          else numbered (count (?lr3\<lparr>buffer := []\<rparr>))
                                 (split (sepText sep)
                                    (fragment (?lr3\<lparr>buffer := []\<rparr>)
                                     @ concat (remainingChunks (reader (?lr3\<lparr>buffer := []\<rparr>)))))), lr')
           \<and> LineReader_isClosed lr'"
        using less.prems(2,3) lr2 bl c
        by (intro less.hyps[OF lt]) simp_all
      then show ?thesis using c by (simp add: fragment_def)
    qed
    from drain_one_by_one[OF op3 base, of "acc @ [x]" xs] obtain lr' where
      r: "readAll (Some 1) (acc @ [x]) (?lr3\<lparr>buffer := xs\<rparr>)
            = Some ((acc @ [x]) @ xs @ ?later, lr')"
      and c: "LineReader_isClosed lr'"
      by blast
    have "numbered (count lr) (split (sepText sep) ?P) = ?N @ ?later"
    proof (cases "isClosed (reader lr2)")
      case True
      with tail show ?thesis by simp
    next
      case False
      with tail have "?P = data @ sepText sep @ fragment lr2 @ concat (remainingChunks (reader lr2))"
        by simp
      then have "split (sepText sep) ?P = split (sepText sep) data
              @ split (sepText sep) (fragment lr2 @ concat (remainingChunks (reader lr2)))"
        by (simp only: split_append_sep)
      with False show ?thesis by (simp add: numbered_append)
    qed
    with step r c N False show ?thesis by simp
  qed
qed

lemma readAll_one:
  assumes "0 < bsize" and "content \<noteq> []"
  shows "\<exists>lr'. readAll (Some 1) []
                 (LineReader_new content bsize
                    \<lparr>lineSeparator = Some sep, skipBlank = False, skipNumbers = None\<rparr>)
               = Some (numbered 0 (split (sepText sep) content), lr')
             \<and> LineReader_isClosed lr'"
proof -
  let ?lr0 = "LineReader_new content bsize
                \<lparr>lineSeparator = Some sep, skipBlank = False, skipNumbers = None\<rparr>"
  let ?lr1 = "openReader ?lr0"
  have r1: "reader ?lr1 = open_source (ChunkReader_new content bsize)"
    by (simp add: openReader_def LineReader_new_def)
  have wf: "wellFormed (reader ?lr1)"
    unfolding r1 using assms(1) by (rule wellFormed_open)
  have nc1: "\<not> isClosed (reader ?lr1)"
    unfolding r1 using assms(2) by (simp add: open_source_def ChunkReader_new_def)
  have bl: "bytesLength (reader ?lr1) \<noteq> 0"
    unfolding r1 using assms(2) by (simp add: open_source_def ChunkReader_new_def)
  have p: "separator ?lr1 = Some sep" "\<not> skipBlank (options ?lr1)"
    "skipNumbers (options ?lr1) = None" "buffer ?lr1 = []"
    by (simp_all add: openReader_def LineReader_new_def)
  have whole: "fragment ?lr1 @ concat (remainingChunks (reader ?lr1)) = content"
    using concat_remainingChunks[OF wf]
    by (simp add: fragment_def openReader_def LineReader_new_def open_source_def
          ChunkReader_new_def)
  have c0: "count ?lr1 = 0"
    by (simp add: openReader_def LineReader_new_def)
  have nc1': "\<not> LineReader_isClosed ?lr1"
    using nc1 by (simp add: LineReader_isClosed_def)
  have "readAll (Some 1) [] ?lr0 =
          (case readLinesWithNumbers (Some 1) ?lr0 of
             (received, lr') \<Rightarrow> readAll (Some 1) ([] @ received) lr')"
    using new_not_closed by (subst readAll.simps) simp
  moreover have "readAll (Some 1) [] ?lr1 =
          (case readLinesWithNumbers (Some 1) ?lr1 of
             (received, lr') \<Rightarrow> readAll (Some 1) ([] @ received) lr')"
    using nc1' by (subst readAll.simps) simp
  ultimately have "readAll (Some 1) [] ?lr0 = readAll (Some 1) [] ?lr1"
    using readLinesWithNumbers_opens[of "Some 1" ?lr0] by simp
  with readAll_one_from[OF p wf bl, of "[]"] nc1 whole c0 show ?thesis
    by simp
qed

text \<open>
  Reading with the limit 1 delivers the same lines with the same numbers as reading
  without a limit.
\<close>

lemma limit_one_same_as_unlimited:
  assumes "0 < bsize" and "content \<noteq> []"
  shows "map_option fst
           (readAll (Some 1) []
              (LineReader_new content bsize
                 \<lparr>lineSeparator = Some sep, skipBlank = False, skipNumbers = None\<rparr>))
         = map_option fst
           (readAll None []
              (LineReader_new content bsize
                 \<lparr>lineSeparator = Some sep, skipBlank = False, skipNumbers = None\<rparr>))"
  using readAll_one[OF assms, of sep] readAll_unlimited[OF assms, of sep] by auto

section \<open>Resetting\<close>

text \<open>
  When no separator was declared, a reset reader is in the state of a new reader
  that has just opened its file.
\<close>

lemma reset_without_declared_separator:
  assumes "lineSeparator (options lr) = None"
    and "isOpened (reader lr)"
    and "bytesLength (reader lr) = length (fileContent (reader lr))"
    and "skips lr = skips (LineReader_new content bsize (options lr))"
  shows "resetReader lr =
           openReader (LineReader_new (fileContent (reader lr)) (bufferSize (reader lr)) (options lr))"
proof -
  have r: "reset (reader lr) =
             open_source (ChunkReader_new (fileContent (reader lr)) (bufferSize (reader lr)))"
    using assms(2,3)
    by (intro ChunkReader.equality) (simp_all add: reset_def open_source_def ChunkReader_new_def)
  show ?thesis
    using assms(1,4) r
    by (intro LineReader.equality)
       (simp_all add: resetReader_def openReader_def LineReader_new_def)
qed



section \<open>A fetch after the source is exhausted\<close>

text \<open>
  Once the source is exhausted and lines are still queued, a call whose limit
  exceeds the queue fetches again: the fetch returns the empty text, the reader is
  not closed because of the queued lines, and the empty text is split into one
  empty line that takes the next number.
\<close>

lemma phantom_line_after_exhaustion:
  assumes "isOpened (reader lr)" and "bytesLength (reader lr) \<noteq> 0"
    and "isClosed (reader lr)" and "cutted lr = None"
    and "separator lr = Some sep"
    and "\<not> skipBlank (options lr)" and "skipNumbers (options lr) = None"
    and "buffer lr \<noteq> []" and "int (length (buffer lr)) < n"
  shows "readLinesWithNumbers (Some n) lr =
           (buffer lr @ [([], Suc (count lr))], lr\<lparr>buffer := [], count := Suc (count lr)\<rparr>)"
proof -
  have l: "nextChunk_loop sep (reader lr) [] = ([], 0, False, reader lr)"
    using assms(3) by (subst nextChunk_loop.simps) simp
  have n: "nextChunk lr = ([], lr)"
    using assms(3,4,5) l by (simp add: nextChunk_def)
  have nc: "\<not> LineReader_isClosed lr"
    using assms(8) by (simp add: LineReader_isClosed_def)
  have p: "pushLines (split (sepText sep) []) lr
             = lr\<lparr>buffer := buffer lr @ [([], Suc (count lr))], count := Suc (count lr)\<rparr>"
    using pushLines_unfiltered[OF assms(6,7), of "[[]]"] by (simp add: upt_rec)
  have n0: "n \<noteq> 0" "\<not> n < 1" using assms(9) by simp_all
  show ?thesis
    using assms(1,2,5,9) n nc p n0
    by (simp add: readLinesWithNumbers_def noLimit_def removeFront_def)
qed

section \<open>The scenarios of the documentation\<close>

text \<open>
  The model gives the outputs that the documentation of the package lists. With
  chunks of ten characters and no declared separator, three reads without a limit
  return two, two and three lines, and the reader is closed after the third.
\<close>

lemma scenario_chunks_of_ten:
  "(case readLines None (LineReader_new readmeFile 10
            \<lparr>lineSeparator = None, skipBlank = False, skipNumbers = None\<rparr>) of
      (first, lr1) \<Rightarrow>
    (case readLines None lr1 of
      (second, lr2) \<Rightarrow>
    (case readLines None lr2 of
      (third, lr3) \<Rightarrow> (first, second, third, LineReader_isClosed lr3))))
   = ([''1111'', ''2222''], [''3333'', ''4444''], [''5555'', [], ''7777''], True)"
  by code_simp

text \<open>With the skip numbers 1, 3 and 5 the lines 2, 4, 6 and 7 are delivered.\<close>

lemma scenario_skip_numbers:
  "map_option fst
     (readAll None []
        (LineReader_new readmeFile 1024
           \<lparr>lineSeparator = None, skipBlank = False,
              skipNumbers = Some [Single 1, Single 3, Single 5]\<rparr>))
   = Some [(''2222'', 2), (''4444'', 4), ([], 6), (''7777'', 7)]"
  by code_simp

text \<open>
  The example with the limit 2, blank lines skipped and the skip numbers 1 and 5
  to 7, on a file of nine lines: the lines 2, 3, 4, 8 and 9 are delivered. The
  counter ends at 10, since the empty line of the last fetch is numbered before the
  blank filter drops it.
\<close>

lemma scenario_limit_two_with_filters:
  "map_option fst
     (readAll (Some 2) []
        (LineReader_new (''1111'' @ [LF] @ ''2222'' @ [LF] @ ''3333'' @ [LF] @ ''4444'' @ [LF]
                @ ''5555'' @ [LF] @ [LF] @ ''7777'' @ [LF] @ ''8888'' @ [LF] @ ''9999'') 1024
           \<lparr>lineSeparator = None, skipBlank = True,
              skipNumbers = Some [Single 1, Range 5 7]\<rparr>))
   = Some [(''2222'', 2), (''3333'', 3), (''4444'', 4), (''8888'', 8), (''9999'', 9)]"
  by code_simp

lemma scenario_limit_two_counter:
  "map_option (count \<circ> snd)
     (readAll (Some 2) []
        (LineReader_new (''1111'' @ [LF] @ ''2222'' @ [LF] @ ''3333'' @ [LF] @ ''4444'' @ [LF]
                @ ''5555'' @ [LF] @ [LF] @ ''7777'' @ [LF] @ ''8888'' @ [LF] @ ''9999'') 1024
           \<lparr>lineSeparator = None, skipBlank = True,
              skipNumbers = Some [Single 1, Range 5 7]\<rparr>))
   = Some 10"
  by code_simp

section \<open>The claims\<close>

text \<open>
  C1. Round trip. For a file made of lines joined by the declared separator and
  for every positive buffer size, reading with no filters until the reader is
  closed, without a limit or one line at a time, ends, and the delivered texts
  joined by the same separator are the file.
\<close>

theorem round_trip:
  assumes "0 < bsize" and "limit = None \<or> limit = Some 1"
  shows "\<exists>received lr'.
           readAll limit []
             (LineReader_new (join (sepText sep) lines) bsize
                \<lparr>lineSeparator = Some sep, skipBlank = False, skipNumbers = None\<rparr>)
             = Some (received, lr')
         \<and> LineReader_isClosed lr'
         \<and> join (sepText sep) (map fst received) = join (sepText sep) lines"
proof (cases "join (sepText sep) lines = []")
  case True
  let ?opts = "\<lparr>lineSeparator = Some sep, skipBlank = False, skipNumbers = None\<rparr>"
  have "readAll limit [] (openReader (LineReader_new [] bsize ?opts))
          = Some ([], openReader (LineReader_new [] bsize ?opts))"
    using empty_closed by (subst readAll.simps) simp
  then have "readAll limit [] (LineReader_new [] bsize ?opts)
          = Some ([], openReader (LineReader_new [] bsize ?opts))"
    using new_not_closed empty_read by (subst readAll.simps) simp
  with True empty_closed show ?thesis by simp
next
  case False
  from assms(2) show ?thesis
  proof
    assume "limit = None"
    with readAll_unlimited[OF assms(1) False, of sep] show ?thesis
      by (auto simp: map_fst_numbered join_split)
  next
    assume "limit = Some 1"
    with readAll_one[OF assms(1) False, of sep] show ?thesis
      by (auto simp: map_fst_numbered join_split)
  qed
qed

text \<open>
  C1 at the lines \<open>ab\<close>, the empty line and \<open>c\<close>, joined by \<open>\r\n\<close>, in
  chunks of three and read one line at a time.
\<close>

theorem round_trip_witness:
  "\<exists>received lr'.
           readAll (Some 1) []
             (LineReader_new (join (sepText SepCRLF) [''ab'', [], ''c'']) 3
                \<lparr>lineSeparator = Some SepCRLF, skipBlank = False, skipNumbers = None\<rparr>)
             = Some (received, lr')
         \<and> LineReader_isClosed lr'
         \<and> join (sepText SepCRLF) (map fst received) = ''ab'' @ [CR, LF, CR, LF] @ ''c''"
  using round_trip[of 3 "Some 1" SepCRLF "[''ab'', [], ''c'']"] by simp

text \<open>
  C2. With a batch limit of 2 and a file of three lines the reader delivers a
  fourth, empty line with the number 4: when the limit exceeds what is left in the
  queue after the source is exhausted, the empty result of the fetch is split into
  one empty line, which is numbered and queued.
\<close>

theorem batch_limit_two_phantom_line:
  "map_option fst
     (readAll (Some 2) []
        (LineReader_new (''a'' @ [LF] @ ''b'' @ [LF] @ ''c'') 1024
           \<lparr>lineSeparator = Some SepLF, skipBlank = False, skipNumbers = None\<rparr>))
   = Some [(''a'', 1), (''b'', 2), (''c'', 3), ([], 4)]"
  by code_simp


text \<open>
  C3. Each raw line of a split blob, in order, takes exactly one number, also
  when it is then discarded; it is discarded when its number is in the skip set
  (single 1-based numbers and inclusive ranges), else when blank lines are skipped
  and its trimmed text is empty, and else it is queued with its number. The skip
  set is the one the constructor builds from the options.
\<close>

theorem pushLines_numbers_and_filters:
  assumes "skips lr = skips (LineReader_new content bsize (options lr))"
  shows "pushLines texts lr =
           lr\<lparr>buffer := buffer lr @ keptLines (options lr) (count lr) texts,
              count := count lr + length texts\<rparr>"
  using assms
proof (induction texts arbitrary: lr)
  case Nil
  then show ?case by (simp add: keptLines_Nil)
next
  case (Cons t ts)
  have has: "bitset_has (skips lr) n \<longleftrightarrow>
     (case skipNumbers (options lr) of None \<Rightarrow> False | Some ns \<Rightarrow> inSkipList ns n)" for n
    using Cons.prems skips_new by simp
  let ?lr' = "lr\<lparr>count := count lr + 1\<rparr>"
  have s1: "skips ?lr' = skips (LineReader_new content bsize (options ?lr'))"
    using Cons.prems by (simp add: LineReader_new_def)
  let ?lr'' = "?lr'\<lparr>buffer := buffer ?lr' @ [(t, count lr + 1)]\<rparr>"
  have s2: "skips ?lr'' = skips (LineReader_new content bsize (options ?lr''))"
    using Cons.prems by (simp add: LineReader_new_def)
  show ?case
    using Cons.IH[OF s1] Cons.IH[OF s2]
    by (auto simp: keptLines_Cons has Let_def split: option.splits)
qed


text \<open>
  C3 at four raw lines of which the second is blank and the third is in the skip
  set.
\<close>

theorem pushLines_numbers_and_filters_witness:
  "buffer (pushLines [''x'', ''  '', ''y'', ''z'']
             (LineReader_new ''x'' 4
                \<lparr>lineSeparator = None, skipBlank = True, skipNumbers = Some [Range 3 3]\<rparr>))
     = [(''x'', 1), (''z'', 4)]
   \<and> count (pushLines [''x'', ''  '', ''y'', ''z'']
             (LineReader_new ''x'' 4
                \<lparr>lineSeparator = None, skipBlank = True, skipNumbers = Some [Range 3 3]\<rparr>))
     = 4"
proof -
  let ?lr = "LineReader_new ''x'' 4
                \<lparr>lineSeparator = None, skipBlank = True, skipNumbers = Some [Range 3 3]\<rparr>"
  have h: "skips ?lr = skips (LineReader_new ''x'' 4 (options ?lr))"
    by (simp add: LineReader_new_def)
  have k: "keptLines (options ?lr) (count ?lr) [''x'', ''  '', ''y'', ''z'']
             = [(''x'', 1), (''z'', 4)]"
    by code_simp
  show ?thesis
    using pushLines_numbers_and_filters [OF h, of "[''x'', ''  '', ''y'', ''z'']"] k
    by (simp add: LineReader_new_def)
qed


text \<open>
  C4, as the claim states it, fails. On \<open>crlfReader\<close> the buffer accumulated
  after the second pull, \<open>a\r\nb\<close>, contains the separator, and a search of
  that buffer would cut there; the reader searches the second chunk \<open>\nb\<close>
  alone, pulls a third chunk, and returns the blob \<open>a\r\nb\<close>.
\<close>

theorem cumulative_search_counterexample:
  "nextChunk_loop SepCRLF (reader crlfReader) []
     = (''a'' @ [CR, LF] @ ''b'' @ [CR, LF], 4, True,
        reader crlfReader\<lparr>bytesRead := 6\<rparr>)
   \<and> nextChunk_loop_cumulative SepCRLF (reader crlfReader) []
     = (''a'' @ [CR, LF] @ ''b'', 1, True,
        reader crlfReader\<lparr>bytesRead := 4\<rparr>)
   \<and> fst (nextChunk crlfReader) = ''a'' @ [CR, LF] @ ''b''"
  by code_simp

text \<open>
  C4, amended. When \<open>nextChunk\<close> returns with the source not exhausted, it has
  pulled chunks up to the first one that contains the separator, searching each
  new chunk alone; it cuts at the last occurrence in that newest chunk, returns
  the pending fragment followed by the pulled text before that occurrence, and
  keeps the text of the newest chunk after the separator as the new pending
  fragment.
\<close>

theorem nextChunk_cuts_in_newest_chunk:
  assumes "separator lr = Some sep" and "nextChunk lr = (data, lr')"
    and "\<not> isClosed (reader lr')"
  shows "\<exists>earlier newest foundAt.
           remainingChunks (reader lr) = earlier @ newest # remainingChunks (reader lr')
         \<and> list_all (noSeparatorIn sep) earlier
         \<and> lastIndexOf newest (sepText sep) = Some foundAt
         \<and> noSeparatorIn sep (drop (Suc foundAt) newest)
         \<and> data = fragment lr @ concat earlier @ take foundAt newest
         \<and> cutted lr' = Some (drop (foundAt + length (sepText sep)) newest)"
proof -
  from nextChunk_cut[OF assms] obtain earlier newest foundAt where
    e: "remainingChunks (reader lr) = earlier @ newest # remainingChunks (reader lr')"
       "list_all (noSeparatorIn sep) earlier"
       "lastIndexOf newest (sepText sep) = Some foundAt"
       "data = fragment lr @ concat earlier @ take foundAt newest"
       "cutted lr' = Some (drop (foundAt + length (sepText sep)) newest)"
    by blast
  have "noSeparatorIn sep (drop (Suc foundAt) newest)"
    unfolding noSeparatorIn_def using e(3) sepText_not_Nil by (rule lastIndexOf_is_last)
  with e show ?thesis by blast
qed

text \<open>C4, amended, at \<open>crlfReader\<close>.\<close>

theorem nextChunk_cuts_in_newest_chunk_witness:
  "\<exists>earlier newest foundAt.
           remainingChunks (reader crlfReader)
             = earlier @ newest # remainingChunks (reader (snd (nextChunk crlfReader)))
         \<and> list_all (noSeparatorIn SepCRLF) earlier
         \<and> lastIndexOf newest (sepText SepCRLF) = Some foundAt
         \<and> noSeparatorIn SepCRLF (drop (Suc foundAt) newest)
         \<and> fst (nextChunk crlfReader) = fragment crlfReader @ concat earlier @ take foundAt newest
         \<and> cutted (snd (nextChunk crlfReader))
             = Some (drop (foundAt + length (sepText SepCRLF)) newest)"
proof -
  have 1: "separator crlfReader = Some SepCRLF" by code_simp
  have 2: "nextChunk crlfReader = (fst (nextChunk crlfReader), snd (nextChunk crlfReader))"
    by simp
  have 3: "\<not> isClosed (reader (snd (nextChunk crlfReader)))" by code_simp
  show ?thesis using nextChunk_cuts_in_newest_chunk[OF 1 2 3] .
qed

text \<open>
  C5. A reader constructed with the separator line feed reads the file
  \<open>a\r\nb\<close> as the lines \<open>a\r\<close> and \<open>b\<close>; after \<open>resetReader\<close> the declared
  separator is gone, the separator is detected as \<open>\r\n\<close>, and the same file is
  read as the lines \<open>a\<close> and \<open>b\<close>.
\<close>

theorem reset_forgets_declared_separator:
  "map_option (\<lambda>(first, lr). (first, map_option fst (readAll None [] (resetReader lr))))
     (readAll None []
        (LineReader_new (''a'' @ [CR, LF] @ ''b'') 1024
           \<lparr>lineSeparator = Some SepLF, skipBlank = False, skipNumbers = None\<rparr>))
   = Some ([(''a'' @ [CR], 1), (''b'', 2)], Some [(''a'', 1), (''b'', 2)])"
  by code_simp


text \<open>
  C6. \<open>setSeparator\<close> pulls chunks until one decides: a chunk that contains
  \<open>\r\n\<close> anywhere decides for it, else its interior decides for \<open>\n\<close> and then
  for \<open>\r\<close>; with no deciding chunk the separator is \<open>\r\n\<close>. The source is
  reset afterwards, so nothing counts as consumed and the whole file is still
  ahead. \<open>nextChunk\<close> runs the detection exactly when the reader has no
  separator.
\<close>

theorem setSeparator_detects:
  "setSeparator lr =
     (detectSeparator (remainingChunks (reader lr)),
      lr\<lparr>reader := reset (reader lr),
         separator := Some (detectSeparator (remainingChunks (reader lr)))\<rparr>)
   \<and> bytesRead (reader (snd (setSeparator lr))) = 0
   \<and> (separator lr = None \<longrightarrow> nextChunk lr = nextChunk (snd (setSeparator lr)))
   \<and> (wellFormed (reader lr) \<longrightarrow>
        concat (remainingChunks (reader (snd (setSeparator lr)))) = fileContent (reader lr))"
proof -
  have "wellFormed (reader lr) \<Longrightarrow>
        concat (remainingChunks (reset (reader lr))) = fileContent (reader lr)"
    using concat_remainingChunks[OF wellFormed_reset] by (simp add: reset_def)
  then show ?thesis
    by (simp add: setSeparator_result nextChunk_def) (simp add: reset_def)
qed

text \<open>
  C6 at \<open>autoReader\<close>: the first chunk \<open>ab\nc\<close> has a line feed in its
  interior and decides, although a later chunk contains \<open>\r\n\<close>.
\<close>

theorem setSeparator_detects_witness:
  "fst (setSeparator autoReader) = SepLF
   \<and> bytesRead (reader (snd (setSeparator autoReader))) = 0
   \<and> nextChunk autoReader = nextChunk (snd (setSeparator autoReader))
   \<and> concat (remainingChunks (reader (snd (setSeparator autoReader))))
       = ''ab'' @ [LF] @ ''cd'' @ [CR, LF] @ ''ef''"
proof -
  have 1: "detectSeparator (remainingChunks (reader autoReader)) = SepLF" by code_simp
  have 2: "separator autoReader = None" by code_simp
  have 3: "wellFormed (reader autoReader)" by code_simp
  have 4: "fileContent (reader autoReader) = ''ab'' @ [LF] @ ''cd'' @ [CR, LF] @ ''ef''" by code_simp
  from setSeparator_detects[of autoReader] 2 3
  have "fst (setSeparator autoReader) = detectSeparator (remainingChunks (reader autoReader))"
    and "bytesRead (reader (snd (setSeparator autoReader))) = 0"
    and "nextChunk autoReader = nextChunk (snd (setSeparator autoReader))"
    and "concat (remainingChunks (reader (snd (setSeparator autoReader)))) = fileContent (reader autoReader)"
    by (metis fst_conv, blast+)
  with 1 4 show ?thesis by simp
qed



text \<open>
  C7. When the source is exhausted as \<open>nextChunk\<close> returns, the blob is the
  pending fragment followed by everything the source still had to give, whether or
  not a separator was found in the last chunk, and no pending fragment is kept.
\<close>

theorem exhausted_source_returns_everything:
  assumes "nextChunk lr = (data, lr')" and "isClosed (reader lr')"
  shows "data = fragment lr
                @ concat (remainingChunks
                    (reader (case separator lr of None \<Rightarrow> snd (setSeparator lr) | Some s \<Rightarrow> lr)))
         \<and> cutted lr' = None"
proof -
  obtain sep lr1 where
    s: "(case separator lr of None \<Rightarrow> setSeparator lr | Some s \<Rightarrow> (s, lr)) = (sep, lr1)"
    by (cases "case separator lr of None \<Rightarrow> setSeparator lr | Some s \<Rightarrow> (s, lr)")
  then have lr1: "lr1 = (case separator lr of None \<Rightarrow> snd (setSeparator lr) | Some s \<Rightarrow> lr)"
    by (auto split: option.splits)
  have c: "cutted lr1 = cutted lr"
    unfolding lr1 by (simp add: setSeparator_result split: option.splits)
  obtain cs cutAt wasCut r' where l: "nextChunk_loop sep (reader lr1) [] = (cs, cutAt, wasCut, r')"
    by (cases "nextChunk_loop sep (reader lr1) []")
  from assms s l have r': "isClosed r'"
    by (auto simp: nextChunk_def Let_def split: if_splits)
  have cs: "cs = concat (remainingChunks (reader lr1))"
    using nextChunk_loop_result[OF l] r'
    by (cases wasCut) (auto simp: remainingChunks_closed)
  from assms(1) s l r' cs c show ?thesis
    unfolding lr1[symmetric]
    by (auto simp: nextChunk_def Let_def fragment_def)
qed

text \<open>C7 at \<open>lfReader\<close>, whose only chunk holds a separator and a tail after it.\<close>

theorem exhausted_source_returns_everything_witness:
  "fst (nextChunk lfReader) = ''a'' @ [LF] @ ''b'' \<and> cutted (snd (nextChunk lfReader)) = None"
proof -
  have 1: "nextChunk lfReader = (fst (nextChunk lfReader), snd (nextChunk lfReader))" by simp
  have 2: "isClosed (reader (snd (nextChunk lfReader)))" by code_simp
  have 3: "fragment lfReader
                @ concat (remainingChunks
                    (reader (case separator lfReader of None \<Rightarrow> snd (setSeparator lfReader)
                             | Some s \<Rightarrow> lfReader)))
           = ''a'' @ [LF] @ ''b''" by code_simp
  show ?thesis using exhausted_source_returns_everything[OF 1 2] 3 by simp
qed

text \<open>
  C8. On a file of length zero every read variant returns an empty result at once:
  the source is only opened, nothing is pulled from it, the counter stays at 0,
  and the reader is closed afterwards; a further call changes nothing.
\<close>

theorem empty_file_reads_nothing:
  "readLinesWithNumbers limit (LineReader_new [] bsize opts)
     = ([], openReader (LineReader_new [] bsize opts))
   \<and> readLines limit (LineReader_new [] bsize opts)
     = ([], openReader (LineReader_new [] bsize opts))
   \<and> readLineWithNumber (LineReader_new [] bsize opts)
     = Some (None, openReader (LineReader_new [] bsize opts))
   \<and> readLine (LineReader_new [] bsize opts)
     = Some (None, openReader (LineReader_new [] bsize opts))
   \<and> LineReader_isClosed (openReader (LineReader_new [] bsize opts))
   \<and> count (openReader (LineReader_new [] bsize opts)) = 0
   \<and> bytesRead (reader (openReader (LineReader_new [] bsize opts))) = 0
   \<and> readLinesWithNumbers limit (openReader (LineReader_new [] bsize opts))
     = ([], openReader (LineReader_new [] bsize opts))"
proof -
  let ?lr0 = "LineReader_new [] bsize opts"
  let ?lr1 = "openReader ?lr0"
  have r: "readLinesWithNumbers lim ?lr0 = ([], ?lr1)" for lim
    by (simp add: readLinesWithNumbers_def LineReader_new_def ChunkReader_new_def
          openReader_def open_source_def)
  have r1: "readLinesWithNumbers lim ?lr1 = ([], ?lr1)" for lim
    by (simp add: readLinesWithNumbers_def LineReader_new_def ChunkReader_new_def
          openReader_def open_source_def)
  have c: "LineReader_isClosed ?lr1"
    by (simp add: LineReader_isClosed_def LineReader_new_def ChunkReader_new_def
          openReader_def open_source_def)
  have nc: "\<not> LineReader_isClosed ?lr0"
    by (simp add: LineReader_isClosed_def LineReader_new_def ChunkReader_new_def)
  have l1: "readLineWithNumber ?lr1 = Some (None, ?lr1)"
    using c by (subst readLineWithNumber.simps) simp
  have l: "readLineWithNumber ?lr0 = Some (None, ?lr1)"
    using nc r[of "Some 1"] l1 by (subst readLineWithNumber.simps) simp
  show ?thesis
    using r r1 c l
    by (simp add: readLines_def readLine_def)
       (simp add: LineReader_new_def ChunkReader_new_def openReader_def open_source_def)
qed


text \<open>C8 with a limit of 1, blank lines skipped and a skip set.\<close>

theorem empty_file_reads_nothing_witness:
  "readLinesWithNumbers (Some 1)
     (LineReader_new [] 16 \<lparr>lineSeparator = None, skipBlank = True, skipNumbers = Some [Single 1]\<rparr>)
     = ([], openReader
          (LineReader_new [] 16
             \<lparr>lineSeparator = None, skipBlank = True, skipNumbers = Some [Single 1]\<rparr>))
   \<and> readLine
     (LineReader_new [] 16 \<lparr>lineSeparator = None, skipBlank = True, skipNumbers = Some [Single 1]\<rparr>)
     = Some (None, openReader
          (LineReader_new [] 16
             \<lparr>lineSeparator = None, skipBlank = True, skipNumbers = Some [Single 1]\<rparr>))
   \<and> LineReader_isClosed
        (openReader
          (LineReader_new [] 16
             \<lparr>lineSeparator = None, skipBlank = True, skipNumbers = Some [Single 1]\<rparr>))"
  using empty_file_reads_nothing
    [of "Some 1" 16 "\<lparr>lineSeparator = None, skipBlank = True, skipNumbers = Some [Single 1]\<rparr>"]
  by blast

text \<open>
  C9, as the claim states it, fails: over a skip set with inclusive ranges the
  constructor makes a reader from the reversed pair \<open>[3, 2]\<close> and raises
  nothing, and that reader delivers every line of a file of three lines.
\<close>

theorem reversed_pair_is_ignored:
  "LineReader_newWith (\<lambda>n b. Inr (bitset_add n b)) (\<lambda>a z b. Inr (bitset_addRange a z b))
     (''a'' @ [LF] @ ''b'' @ [LF] @ ''c'') 1024
     \<lparr>lineSeparator = Some SepLF, skipBlank = False, skipNumbers = Some [Range 3 2]\<rparr>
   = (Inr (LineReader_new (''a'' @ [LF] @ ''b'' @ [LF] @ ''c'') 1024
            \<lparr>lineSeparator = Some SepLF, skipBlank = False, skipNumbers = Some [Range 3 2]\<rparr>)
      :: string + LineReader)
   \<and> map_option fst
     (readAll None []
        (LineReader_new (''a'' @ [LF] @ ''b'' @ [LF] @ ''c'') 1024
           \<lparr>lineSeparator = Some SepLF, skipBlank = False, skipNumbers = Some [Range 3 2]\<rparr>))
   = Some [(''a'', 1), (''b'', 2), (''c'', 3)]"
proof
  show "LineReader_newWith (\<lambda>n b. Inr (bitset_add n b)) (\<lambda>a z b. Inr (bitset_addRange a z b))
     (''a'' @ [LF] @ ''b'' @ [LF] @ ''c'') 1024
     \<lparr>lineSeparator = Some SepLF, skipBlank = False, skipNumbers = Some [Range 3 2]\<rparr>
   = (Inr (LineReader_new (''a'' @ [LF] @ ''b'' @ [LF] @ ''c'') 1024
            \<lparr>lineSeparator = Some SepLF, skipBlank = False, skipNumbers = Some [Range 3 2]\<rparr>)
      :: string + LineReader)"
    by (rule LineReader_newWith_total)
  show "map_option fst
     (readAll None []
        (LineReader_new (''a'' @ [LF] @ ''b'' @ [LF] @ ''c'') 1024
           \<lparr>lineSeparator = Some SepLF, skipBlank = False, skipNumbers = Some [Range 3 2]\<rparr>))
   = Some [(''a'', 1), (''b'', 2), (''c'', 3)]"
    by code_simp
qed

text \<open>
  C9, amended. The constructor checks and corrects nothing itself: it hands each
  pair \<open>[start, end]\<close> unchanged to the skip set as the range from \<open>start\<close>
  to \<open>end + 1\<close> exclusive. Every error of the constructor is one that the skip
  set raised on an entry of the list; an error that the skip set raises on a pair
  ends the constructor with that error; and a reversed pair, whose range is empty,
  changes nothing when the skip set ignores an empty range.
\<close>

theorem constructor_hands_pairs_to_the_set:
  "(LineReader_newWith add addRange content bsize opts = Inl err \<longrightarrow>
      (\<exists>ns b. skipNumbers opts = Some ns
         \<and> ((\<exists>n. Single n \<in> set ns \<and> add n b = Inl err)
            \<or> (\<exists>s e. Range s e \<in> set ns \<and> addRange s (e + 1) b = Inl err))))
   \<and> (LineReader_newWith add addRange content bsize (opts\<lparr>skipNumbers := Some before\<rparr>) = Inr made
        \<and> addRange s (e + 1) (skips made) = Inl err \<longrightarrow>
      LineReader_newWith add addRange content bsize
        (opts\<lparr>skipNumbers := Some (before @ Range s e # after)\<rparr>) = Inl err)
   \<and> (e < s \<and> (\<forall>a z b. z \<le> a \<longrightarrow> addRange a z b = Inr b) \<longrightarrow>
      map_sum id skips
        (LineReader_newWith add addRange content bsize
           (opts\<lparr>skipNumbers := Some (before @ Range s e # after)\<rparr>))
      = map_sum id skips
        (LineReader_newWith add addRange content bsize
           (opts\<lparr>skipNumbers := Some (before @ after)\<rparr>)))"
proof (intro conjI impI)
  assume "LineReader_newWith add addRange content bsize opts = Inl err"
  then obtain ns where ns: "skipNumbers opts = Some ns"
    and l: "addSkipNumbersWith add addRange ns {} = Inl err"
    by (auto simp: LineReader_newWith_def split: option.splits sum.splits)
  from addSkipNumbersWith_error[OF l] ns
  show "\<exists>ns b. skipNumbers opts = Some ns
         \<and> ((\<exists>n. Single n \<in> set ns \<and> add n b = Inl err)
            \<or> (\<exists>s e. Range s e \<in> set ns \<and> addRange s (e + 1) b = Inl err))"
    by blast
next
  assume a: "LineReader_newWith add addRange content bsize (opts\<lparr>skipNumbers := Some before\<rparr>) = Inr made
        \<and> addRange s (e + 1) (skips made) = Inl err"
  then have "addSkipNumbersWith add addRange before {} = Inr (skips made)"
    by (auto simp: LineReader_newWith_def split: sum.splits)
  with a show "LineReader_newWith add addRange content bsize
        (opts\<lparr>skipNumbers := Some (before @ Range s e # after)\<rparr>) = Inl err"
    by (simp add: LineReader_newWith_def addSkipNumbersWith_append)
next
  assume a: "e < s \<and> (\<forall>a z b. z \<le> a \<longrightarrow> addRange a z b = Inr b)"
  then have "addRange s (e + 1) b = Inr b" for b by simp
  then have "addSkipNumbersWith add addRange (before @ Range s e # after) {}
               = addSkipNumbersWith add addRange (before @ after) {}"
    by (simp add: addSkipNumbersWith_append split: sum.splits)
  then show "map_sum id skips
        (LineReader_newWith add addRange content bsize
           (opts\<lparr>skipNumbers := Some (before @ Range s e # after)\<rparr>))
      = map_sum id skips
        (LineReader_newWith add addRange content bsize
           (opts\<lparr>skipNumbers := Some (before @ after)\<rparr>))"
    by (simp add: LineReader_newWith_def split: sum.splits)
qed

text \<open>
  C9, amended, over a skip set that ignores an empty range and refuses a range
  that ends past 4294967295: the pair \<open>[2, 4294967295]\<close> ends the constructor
  with the error of the set, and the reversed pair \<open>[3, 2]\<close> between two single
  numbers changes nothing.
\<close>

theorem constructor_hands_pairs_to_the_set_witness:
  "LineReader_newWith
     (\<lambda>n b. Inr (bitset_add n b))
     (\<lambda>a z b. if z \<le> a then Inr b
               else if 4294967295 < z then Inl ''RangeError''
               else Inr (bitset_addRange a z b))
     ''x'' 4
     \<lparr>lineSeparator = None, skipBlank = False,
        skipNumbers = Some [Single 1, Range 2 4294967295, Single 5]\<rparr>
   = Inl ''RangeError''
   \<and> (\<exists>ns b.
         skipNumbers \<lparr>lineSeparator = None, skipBlank = False,
                      skipNumbers = Some [Single 1, Range 2 4294967295, Single 5]\<rparr> = Some ns
         \<and> ((\<exists>n. Single n \<in> set ns \<and> (Inr (bitset_add n b) :: string + BitSet) = Inl ''RangeError'')
            \<or> (\<exists>s e. Range s e \<in> set ns
                  \<and> (if e + 1 \<le> s then Inr b
                      else if 4294967295 < e + 1 then Inl ''RangeError''
                      else Inr (bitset_addRange s (e + 1) b)) = Inl ''RangeError'')))
   \<and> map_sum id skips
       (LineReader_newWith
          (\<lambda>n b. Inr (bitset_add n b))
          (\<lambda>a z b. if z \<le> a then Inr b
                    else if 4294967295 < z then Inl ''RangeError''
                    else Inr (bitset_addRange a z b))
          ''x'' 4
          \<lparr>lineSeparator = None, skipBlank = False,
             skipNumbers = Some [Single 1, Range 3 2, Single 5]\<rparr>)
     = map_sum id skips
       (LineReader_newWith
          (\<lambda>n b. Inr (bitset_add n b))
          (\<lambda>a z b. if z \<le> a then Inr b
                    else if 4294967295 < z then Inl ''RangeError''
                    else Inr (bitset_addRange a z b))
          ''x'' 4
          \<lparr>lineSeparator = None, skipBlank = False,
             skipNumbers = Some [Single 1, Single 5]\<rparr>)"
proof -
  let ?add = "\<lambda>n b. Inr (bitset_add n b) :: string + BitSet"
  let ?addRange = "\<lambda>a z b. if z \<le> a then Inr b
               else if 4294967295 < z then Inl ''RangeError''
               else (Inr (bitset_addRange a z b) :: string + BitSet)"
  let ?opts = "\<lparr>lineSeparator = None, skipBlank = False, skipNumbers = None\<rparr>"
  let ?lr1 = "LineReader_new ''x'' 4 (?opts\<lparr>skipNumbers := Some [Single 1]\<rparr>)"
  have h1: "LineReader_newWith ?add ?addRange ''x'' 4 (?opts\<lparr>skipNumbers := Some [Single 1]\<rparr>)
              = Inr ?lr1"
    by (simp add: LineReader_newWith_def LineReader_new_def)
  have h2: "?addRange 2 (4294967295 + 1) (skips ?lr1) = Inl ''RangeError''"
    by simp
  have h3: "(2::int) < 3 \<and> (\<forall>a z b. z \<le> a \<longrightarrow> ?addRange a z b = Inr b)"
    by simp
  note t1 = constructor_hands_pairs_to_the_set
    [where add = ?add and addRange = ?addRange and content = "''x''" and bsize = 4
       and opts = ?opts and before = "[Single 1]" and after = "[Single 5]"
       and s = 2 and e = 4294967295 and made = ?lr1 and err = "''RangeError''"]
  note t0 = constructor_hands_pairs_to_the_set
    [where add = ?add and addRange = ?addRange and content = "''x''" and bsize = 4
       and opts = "?opts\<lparr>skipNumbers := Some [Single 1, Range 2 4294967295, Single 5]\<rparr>"
       and err = "''RangeError''"]
  note t2 = constructor_hands_pairs_to_the_set
    [where add = ?add and addRange = ?addRange and content = "''x''" and bsize = 4
       and opts = ?opts and before = "[Single 1]" and after = "[Single 5]"
       and s = 3 and e = 2]
  from t1 h1 h2 have a: "LineReader_newWith ?add ?addRange ''x'' 4
        (?opts\<lparr>skipNumbers := Some ([Single 1] @ Range 2 4294967295 # [Single 5])\<rparr>)
          = Inl ''RangeError''"
    by blast
  from t2 h3 have c: "map_sum id skips
        (LineReader_newWith ?add ?addRange ''x'' 4
           (?opts\<lparr>skipNumbers := Some ([Single 1] @ Range 3 2 # [Single 5])\<rparr>))
      = map_sum id skips
        (LineReader_newWith ?add ?addRange ''x'' 4
           (?opts\<lparr>skipNumbers := Some ([Single 1] @ [Single 5])\<rparr>))"
    by blast
  from a have a': "LineReader_newWith ?add ?addRange ''x'' 4
        (?opts\<lparr>skipNumbers := Some [Single 1, Range 2 4294967295, Single 5]\<rparr>)
          = Inl ''RangeError''"
    by simp
  from t0 a' have b: "\<exists>ns b.
         skipNumbers (?opts\<lparr>skipNumbers := Some [Single 1, Range 2 4294967295, Single 5]\<rparr>) = Some ns
         \<and> ((\<exists>n. Single n \<in> set ns \<and> ?add n b = Inl ''RangeError'')
            \<or> (\<exists>s e. Range s e \<in> set ns \<and> ?addRange s (e + 1) b = Inl ''RangeError''))"
    by blast
  from a' b c show ?thesis by simp
qed

text \<open>
  C10. A limit of 0 is the same as no limit, for \<open>readLinesWithNumbers\<close> and
  for \<open>readLines\<close>: the same fetch is made, and on a file that is not empty the
  whole queue is returned, so that none of it stays behind.
\<close>

theorem limit_zero_is_no_limit:
  "readLinesWithNumbers (Some 0) lr = readLinesWithNumbers None lr
   \<and> readLines (Some 0) lr = readLines None lr
   \<and> (bytesLength (reader (openReader lr)) \<noteq> 0 \<longrightarrow>
        buffer (snd (readLinesWithNumbers (Some 0) lr)) = [])"
  by (auto simp: readLinesWithNumbers_def readLines_def noLimit_def removeFront_def Let_def
        openReader_def open_source_def split: prod.splits)


text \<open>C10 at a file of two lines: both are returned under the limit 0.\<close>

theorem limit_zero_is_no_limit_witness:
  "fst (readLinesWithNumbers (Some 0)
          (LineReader_new (''a'' @ [LF] @ ''b'') 8
             \<lparr>lineSeparator = Some SepLF, skipBlank = False, skipNumbers = None\<rparr>))
     = [(''a'', 1), (''b'', 2)]
   \<and> buffer (snd (readLinesWithNumbers (Some 0)
          (LineReader_new (''a'' @ [LF] @ ''b'') 8
             \<lparr>lineSeparator = Some SepLF, skipBlank = False, skipNumbers = None\<rparr>))) = []"
proof -
  let ?lr = "LineReader_new (''a'' @ [LF] @ ''b'') 8
             \<lparr>lineSeparator = Some SepLF, skipBlank = False, skipNumbers = None\<rparr>"
  have n: "bytesLength (reader (openReader ?lr)) \<noteq> 0"
    by (simp add: openReader_def open_source_def LineReader_new_def ChunkReader_new_def)
  have v: "fst (readLinesWithNumbers None ?lr) = [(''a'', 1), (''b'', 2)]"
    by code_simp
  from limit_zero_is_no_limit [of ?lr] n
  have "readLinesWithNumbers (Some 0) ?lr = readLinesWithNumbers None ?lr"
    and "buffer (snd (readLinesWithNumbers (Some 0) ?lr)) = []"
    by blast+
  with v show ?thesis by simp
qed


end
